theory Spec2Isabelle
  imports Complex_Main "HOL-Library.Word"
begin

unbundle bit_operations_syntax

section \<open>Fixed-point complex samples\<close>

text \<open>
  The program works on \<^verbatim>\<open>iq_t = ymn::complex<ymn::fixq15>\<close>. The headers
  \<^verbatim>\<open>fixq15.hpp\<close> and \<^verbatim>\<open>complex.hpp\<close> are not among the sources, so the
  arithmetic below follows the specification (section 4.1): a sample is a pair of
  integers, each the raw value of a number scaled by \<open>2^15\<close>. The width of the raw
  value is not known from the sources; it is modelled as an unbounded integer.
\<close>

type_synonym fixq15 = int

definition Q15 :: int where
  \<comment> \<open>Modelled from the spec: the macro is defined in the missing \<^verbatim>\<open>fixq15.hpp\<close>; the
      fractional scale of the glossary, \<open>2^15\<close>.\<close>
  "Q15 = 32768"

datatype iq_t = IQ (re_q: fixq15) (im_q: fixq15)

text \<open>The quotient of two C++ integers is rounded towards zero.\<close>

definition c_div :: "int \<Rightarrow> int \<Rightarrow> int" where
  "c_div a b = (if (a < 0) = (b < 0) then \<bar>a\<bar> div \<bar>b\<bar> else - (\<bar>a\<bar> div \<bar>b\<bar>))"

definition fixq15_mul :: "fixq15 \<Rightarrow> fixq15 \<Rightarrow> fixq15" where
  \<comment> \<open>Modelled from the spec: \<^verbatim>\<open>fixq15.hpp\<close> is missing. The product is taken in a wider
      type and shifted right by 15 (an arithmetic shift, which rounds down).\<close>
  "fixq15_mul a b = drop_bit 15 (a * b)"

definition fixq15_div :: "fixq15 \<Rightarrow> fixq15 \<Rightarrow> fixq15 option" where
  \<comment> \<open>Modelled from the spec: \<^verbatim>\<open>fixq15.hpp\<close> is missing. The dividend is rescaled by
      \<open>2^15\<close> and divided with the integer division of C++; a zero divisor has no result.\<close>
  "fixq15_div a b = (if b = 0 then None else Some (c_div (a * Q15) b))"

definition iq_add :: "iq_t \<Rightarrow> iq_t \<Rightarrow> iq_t" where
  \<comment> \<open>Modelled from the spec: \<^verbatim>\<open>complex.hpp\<close> is missing. Addition is exact.\<close>
  "iq_add u v = IQ (re_q u + re_q v) (im_q u + im_q v)"

definition iq_sub :: "iq_t \<Rightarrow> iq_t \<Rightarrow> iq_t" where
  \<comment> \<open>Modelled from the spec: \<^verbatim>\<open>complex.hpp\<close> is missing. Subtraction is exact.\<close>
  "iq_sub u v = IQ (re_q u - re_q v) (im_q u - im_q v)"

definition iq_mul :: "iq_t \<Rightarrow> iq_t \<Rightarrow> iq_t" where
  \<comment> \<open>Modelled from the spec: \<^verbatim>\<open>complex.hpp\<close> is missing. The complex product, each
      of its four scalar products rescaled by \<^const>\<open>fixq15_mul\<close>.\<close>
  "iq_mul u v =
     IQ (fixq15_mul (re_q u) (re_q v) - fixq15_mul (im_q u) (im_q v))
        (fixq15_mul (re_q u) (im_q v) + fixq15_mul (im_q u) (re_q v))"

definition iq_div_scalar :: "iq_t \<Rightarrow> fixq15 \<Rightarrow> iq_t option" where
  \<comment> \<open>Modelled from the spec: \<^verbatim>\<open>complex.hpp\<close> is missing. Both parts are divided by
      the scalar.\<close>
  "iq_div_scalar u s =
     (case (fixq15_div (re_q u) s, fixq15_div (im_q u) s) of
        (Some a, Some b) \<Rightarrow> Some (IQ a b)
      | _ \<Rightarrow> None)"

section \<open>fft.hpp\<close>

text \<open>
  Buffers are lists; a function that reads or writes outside its buffer has no
  result (\<open>None\<close>). Sizes and indices (\<^verbatim>\<open>size_t\<close>, \<^verbatim>\<open>int\<close>) are natural numbers:
  the conversions between the two types in the source are exact for sizes below
  \<open>2^31\<close>, and the program admits no transform size above 8192.
\<close>

subsection \<open>fft_reorder_samples\<close>

text \<open>
  The inner loop \<^verbatim>\<open>do l /= 2; while (m + l >= N);\<close> started from \<open>l\<close>. When \<open>l\<close>
  has reached 0 and the condition still holds the loop never ends: \<open>None\<close>.
\<close>

function next_l :: "nat \<Rightarrow> nat \<Rightarrow> nat \<Rightarrow> nat option" where
  "next_l N m l =
     (if m + l div 2 \<ge> N
      then (if l div 2 = 0 then None else next_l N m (l div 2))
      else Some (l div 2))"
  by pat_completeness auto
termination
  by (relation "measure (\<lambda>(N, m, l). l)") auto

declare next_l.simps [simp del]

text \<open>
  \<^verbatim>\<open>m = (m & (l - 1)) + l\<close>. For \<open>l = 0\<close> the mask \<^verbatim>\<open>l - 1\<close> is \<open>-1\<close>, all bits
  set, and \<open>m\<close> stays as it is.
\<close>

definition advance_m :: "nat \<Rightarrow> nat \<Rightarrow> nat" where
  "advance_m m l = (if l = 0 then m else (m AND (l - 1)) + l)"

definition swap_at :: "nat \<Rightarrow> nat \<Rightarrow> 'a list \<Rightarrow> 'a list" where
  "swap_at n m iq = iq[n := iq ! m, m := iq ! n]"

text \<open>
  The loop over \<open>n\<close>, on the buffer and on a trace of the index pairs that were
  swapped. The trace is not part of the program's state: it records which calls of
  \<^verbatim>\<open>std::swap\<close> were made.
\<close>

function reorder_loop ::
  "nat \<Rightarrow> nat \<Rightarrow> nat \<Rightarrow> 'a list \<times> (nat \<times> nat) list \<Rightarrow> ('a list \<times> (nat \<times> nat) list) option" where
  "reorder_loop N n m st =
     (if n < N then
        (case next_l N m N of
           None \<Rightarrow> None
         | Some l \<Rightarrow>
             if advance_m m l \<le> n then reorder_loop N (Suc n) (advance_m m l) st
             else if advance_m m l < length (fst st)
               then reorder_loop N (Suc n) (advance_m m l)
                      (swap_at n (advance_m m l) (fst st), snd st @ [(n, advance_m m l)])
               else None)
      else Some st)"
  by pat_completeness auto
termination
  by (relation "measure (\<lambda>(N, n, m, st). N - n)") auto

declare reorder_loop.simps [simp del]

definition fft_reorder_samples :: "'a list \<Rightarrow> nat \<Rightarrow> 'a list option" where
  "fft_reorder_samples iq N = map_option fst (reorder_loop N 1 0 (iq, []))"

definition fft_reorder_swaps :: "'a list \<Rightarrow> nat \<Rightarrow> (nat \<times> nat) list option" where
  "fft_reorder_swaps iq N = map_option snd (reorder_loop N 1 0 (iq, []))"

subsection \<open>fft_reorder_coefficients\<close>

fun for_each :: "('i \<Rightarrow> 's \<Rightarrow> 's option) \<Rightarrow> 'i list \<Rightarrow> 's \<Rightarrow> 's option" where
  "for_each body [] s = Some s"
| "for_each body (i # is) s = (case body i s of None \<Rightarrow> None | Some s' \<Rightarrow> for_each body is s')"

definition swap_checked :: "nat \<Rightarrow> nat \<Rightarrow> 'a list \<Rightarrow> 'a list option" where
  "swap_checked n m iq = (if n < length iq \<and> m < length iq then Some (swap_at n m iq) else None)"

definition fft_reorder_coefficients :: "'a list \<Rightarrow> nat \<Rightarrow> 'a list option" where
  "fft_reorder_coefficients iq N =
     for_each (\<lambda>n. swap_checked n (n + N div 2)) [0..<N div 2] iq"

subsection \<open>fft\<close>

fun ilog2 :: "nat \<Rightarrow> nat" where
  \<comment> \<open>Modelled from the spec: \<^verbatim>\<open>ilog2.hpp\<close> is missing. The butterfly passes run for
      \<open>log2_n\<close> from 0 to \<open>log2(N) - 1\<close>; \<open>ilog2\<close> is the integer binary logarithm.\<close>
  "ilog2 n = (if n < 2 then 0 else Suc (ilog2 (n div 2)))"

declare ilog2.simps [simp del]

definition butterfly :: "iq_t list \<Rightarrow> nat \<Rightarrow> nat \<Rightarrow> nat \<Rightarrow> iq_t list \<Rightarrow> iq_t list option" where
  "butterfly e mh j r iq =
     (if r + j + mh < length iq \<and> j < length e then
        let u = iq ! (r + j);
            v = iq_mul (iq ! (r + j + mh)) (e ! j)
        in Some (iq[r + j := iq_add u v, r + j + mh := iq_sub u v])
      else None)"

text \<open>
  \<^verbatim>\<open>for (r = 0; r < N; r += m)\<close> with \<open>m = 2 * mh\<close> and \<open>mh = 1 << log2_n\<close>.
\<close>

function r_loop :: "iq_t list \<Rightarrow> nat \<Rightarrow> nat \<Rightarrow> nat \<Rightarrow> nat \<Rightarrow> iq_t list \<Rightarrow> iq_t list option" where
  "r_loop e N log2_n j r iq =
     (if r < N then
        (case butterfly e (2 ^ log2_n) j r iq of
           None \<Rightarrow> None
         | Some iq' \<Rightarrow> r_loop e N log2_n j (r + 2 ^ log2_n * 2) iq')
      else Some iq)"
  by pat_completeness auto
termination
proof (relation "measure (\<lambda>(e, N, log2_n, j, r, iq). N - r)")
  fix e :: "iq_t list" and N log2_n j r :: nat and iq iq' :: "iq_t list"
  assume "r < N"
  moreover have "0 < (2::nat) ^ log2_n * 2" by simp
  ultimately have "N - (r + 2 ^ log2_n * 2) < N - r" by linarith
  then show "((e, N, log2_n, j, r + 2 ^ log2_n * 2, iq'), (e, N, log2_n, j, r, iq))
               \<in> measure (\<lambda>(e, N, log2_n, j, r, iq). N - r)"
    by simp
qed simp

declare r_loop.simps [simp del]

definition fft_pass :: "iq_t list \<Rightarrow> nat \<Rightarrow> nat \<Rightarrow> iq_t list \<Rightarrow> iq_t list option" where
  "fft_pass e N log2_n iq =
     for_each (\<lambda>j. r_loop e N log2_n j 0) [0..<2 ^ log2_n] iq"

definition fft :: "iq_t list \<Rightarrow> iq_t list \<Rightarrow> nat \<Rightarrow> iq_t list option" where
  "fft iq e N =
     (case fft_reorder_samples iq N of
        None \<Rightarrow> None
      | Some iq1 \<Rightarrow>
          (case for_each (fft_pass e N) [0..<ilog2 N] iq1 of
             None \<Rightarrow> None
           | Some iq2 \<Rightarrow> fft_reorder_coefficients iq2 N))"

section \<open>rtl-sdr-fft.cpp\<close>

definition FFT_SIZE_MAX :: int where
  "FFT_SIZE_MAX = 8 * 1024"

definition IQBUF_SIZE :: nat where
  "IQBUF_SIZE = nat FFT_SIZE_MAX * 2"

definition IDLE_LOOPS_NUM :: nat where
  "IDLE_LOOPS_NUM = 1"

subsection \<open>generate_e_2pi_i\<close>

text \<open>
  The table is computed in \<^verbatim>\<open>double\<close>; the model computes it over the reals, with
  \<^verbatim>\<open>round\<close> of the C library (halves away from zero). The two agree wherever the
  exact value is not within floating-point error of a half-integer, in particular
  where cosine and sine are \<open>0\<close>, \<open>1\<close> or \<open>-1\<close>. The result of the conversion to
  \<^verbatim>\<open>fixq15\<close> is taken as the raw value, as for the integer constants the program
  converts.
\<close>

definition c_round :: "real \<Rightarrow> int" where
  "c_round x = (if 0 \<le> x then \<lfloor>x + 1 / 2\<rfloor> else - \<lfloor>- x + 1 / 2\<rfloor>)"

definition generate_e_2pi_i :: "nat \<Rightarrow> iq_t list" where
  "generate_e_2pi_i N =
     map (\<lambda>i. IQ (c_round (real_of_int Q15 * cos (2 * pi * real i / real N)))
                  (c_round (real_of_int Q15 * sin (2 * pi * real i / real N))))
       [0..<N]"

subsection \<open>main: from the parsed options to the start of the pipeline\<close>

text \<open>
  The parsed options (\<open>frequency\<close>, \<open>bandwidth\<close>, \<open>fft_size\<close>) and the results of
  the calls into the C library and the tuner library are the inputs. \<open>fft_size\<close> is
  an \<^verbatim>\<open>int\<close>: for every value above \<open>INT_MIN\<close> the expression
  \<^verbatim>\<open>fft_size & (fft_size - 1)\<close> is the bitwise conjunction of two's complement
  integers; at \<open>INT_MIN\<close> the subtraction overflows, which C++ leaves undefined.
\<close>

record device_env =
  fopen_ok :: bool
  dev_index :: int
  open_status :: int
  gain_mode_status :: int
  reset_buffer_status :: int
  center_freq_status :: int
  sample_rate_status :: int

datatype exit_reason =
    Cannot_Create_File | Usage | Not_Power_Of_Two | Too_Big | No_Device | Open_Failed
  | Gain_Mode_Failed | Reset_Buffer_Failed | Center_Freq_Failed | Sample_Rate_Failed

datatype outcome =
    Exit_Failure exit_reason
  | Undefined_Behaviour
  | Pipeline_Started int "iq_t list"

definition main_run :: "32 word \<Rightarrow> 32 word \<Rightarrow> int \<Rightarrow> device_env \<Rightarrow> outcome" where
  "main_run frequency bandwidth fft_size env =
     (if \<not> fopen_ok env then Exit_Failure Cannot_Create_File
      else if frequency = 0 then Exit_Failure Usage
      else if fft_size = - (2 ^ 31) then Undefined_Behaviour
      else if fft_size AND (fft_size - 1) \<noteq> 0 then Exit_Failure Not_Power_Of_Two
      else if fft_size > FFT_SIZE_MAX then Exit_Failure Too_Big
      else if dev_index env < 0 then Exit_Failure No_Device
      else if open_status env < 0 then Exit_Failure Open_Failed
      else if gain_mode_status env \<noteq> 0 then Exit_Failure Gain_Mode_Failed
      else if reset_buffer_status env \<noteq> 0 then Exit_Failure Reset_Buffer_Failed
      else if center_freq_status env \<noteq> 0 then Exit_Failure Center_Freq_Failed
      else if sample_rate_status env \<noteq> 0 then Exit_Failure Sample_Rate_Failed
      else Pipeline_Started fft_size (generate_e_2pi_i (nat fft_size)))"

subsection \<open>The state the two stages work on\<close>

text \<open>
  \<open>out_file\<close> holds the lines written to \<^verbatim>\<open>fp\<close>, \<open>err_log\<close> what was written to
  \<^verbatim>\<open>stderr\<close>, \<open>counter\<close> is the static counter of the producer and \<open>orb\<close> the ring
  buffer between the stages. \<^verbatim>\<open>ringbuffer.hpp\<close> and \<^verbatim>\<open>pipeline.hpp\<close> are not among
  the sources: the write operation of the ring buffer is a parameter of the producer,
  and the status and buffer that one read returned are a parameter of the analysis
  stage.
\<close>

datatype log_msg = Read_Failed | Dropped_Samples int | Write_Failed | Ring_Buffer_Dump

record 'q world =
  counter :: nat
  out_file :: "string list"
  err_log :: "log_msg list"
  orb :: 'q

subsection \<open>Printing with \%d\<close>

definition digit_char :: "nat \<Rightarrow> char" where
  "digit_char d = ''0123456789'' ! d"

function show_nat :: "nat \<Rightarrow> string" where
  "show_nat n = (if n < 10 then [digit_char n] else show_nat (n div 10) @ [digit_char (n mod 10)])"
  by pat_completeness auto
termination
  by (relation "measure id") auto

declare show_nat.simps [simp del]

definition show_int :: "int \<Rightarrow> string" where
  "show_int i = (if i < 0 then CHR ''-'' # show_nat (nat (- i)) else show_nat (nat i))"

subsection \<open>producer\<close>

definition convert_sample :: "8 word \<Rightarrow> 8 word \<Rightarrow> iq_t" where
  "convert_sample b0 b1 = IQ ((uint b0 - 127) * 256) ((uint b1 - 127) * 256)"

definition sample_line :: "8 word \<Rightarrow> 8 word \<Rightarrow> string" where
  "sample_line b0 b1 = show_int (uint b0 - 127) @ ''   '' @ show_int (uint b1 - 127)"

text \<open>
  The inner loop over \<open>i\<close>, on the new buffer and the output file. \<open>src\<close> is
  \<^verbatim>\<open>&iqbuf_u8[offset]\<close>; a read beyond the end of \<^verbatim>\<open>iqbuf_u8\<close> has no result.
\<close>

definition convert_step ::
  "8 word list \<Rightarrow> nat \<Rightarrow> nat \<Rightarrow> iq_t list \<times> string list \<Rightarrow> (iq_t list \<times> string list) option" where
  "convert_step bytes offset i s =
     (if offset + 2 * i + 1 < length bytes \<and> i < length (fst s) then
        Some ((fst s)[i := convert_sample (bytes ! (offset + 2 * i + 0)) (bytes ! (offset + 2 * i + 1))],
              snd s @ [sample_line (bytes ! (offset + 2 * i + 0)) (bytes ! (offset + 2 * i + 1))])
      else None)"

definition convert_block ::
  "nat \<Rightarrow> 8 word list \<Rightarrow> nat \<Rightarrow> string list \<Rightarrow> (iq_t list \<times> string list) option" where
  "convert_block F bytes offset out =
     for_each (convert_step bytes offset) [0..<F] (replicate F (IQ 0 0), out)"

text \<open>
  \<^verbatim>\<open>for (offset = 0; offset < sizeof(iqbuf_u8); offset += (fft_size * 2))\<close>. With a
  step of 0 the loop never ends: \<open>None\<close>.
\<close>

function offset_loop ::
  "('q \<Rightarrow> iq_t list \<Rightarrow> int \<times> 'q) \<Rightarrow> nat \<Rightarrow> 8 word list \<Rightarrow> nat \<Rightarrow> 'q world \<Rightarrow> 'q world option" where
  "offset_loop orb_write F bytes offset st =
     (if offset < IQBUF_SIZE then
        (if F = 0 then None
         else
           (case convert_block F bytes offset (out_file st) of
              None \<Rightarrow> None
            | Some conv \<Rightarrow>
                offset_loop orb_write F bytes (offset + F * 2)
                  (st\<lparr>out_file := snd conv,
                      orb := snd (orb_write (orb st) (fst conv)),
                      err_log := (if fst (orb_write (orb st) (fst conv)) \<noteq> 1
                                  then err_log st @ [Write_Failed, Ring_Buffer_Dump]
                                  else err_log st)\<rparr>)))
      else Some st)"
  by pat_completeness auto
termination
  by (relation "measure (\<lambda>(w, F, bytes, offset, st). IQBUF_SIZE - offset)") auto

declare offset_loop.simps [simp del]

text \<open>
  One call of the producer: \<open>status\<close> and \<open>n_read\<close> are what
  \<^verbatim>\<open>rtlsdr_read_sync\<close> returned, \<open>bytes\<close> the contents of \<^verbatim>\<open>iqbuf_u8\<close> after it.
  The result is the returned flag and the new state, or \<open>None\<close> when the call does
  not return: a transform size of 0 keeps the loop over \<open>offset\<close> running for ever, a
  negative one makes the allocation of the buffer fail with an exception.
\<close>

definition producer ::
  "('q \<Rightarrow> iq_t list \<Rightarrow> int \<times> 'q) \<Rightarrow> int \<Rightarrow> int \<Rightarrow> int \<Rightarrow> 8 word list \<Rightarrow> 'q world
     \<Rightarrow> (bool \<times> 'q world) option" where
  "producer orb_write fft_size status n_read bytes st =
     (if status \<noteq> 0 then Some (False, st\<lparr>err_log := err_log st @ [Read_Failed]\<rparr>)
      else if n_read \<noteq> int IQBUF_SIZE
        then Some (True, st\<lparr>err_log := err_log st @ [Dropped_Samples n_read]\<rparr>)
      else if counter st < IDLE_LOOPS_NUM then Some (True, st\<lparr>counter := counter st + 1\<rparr>)
      else if fft_size < 0 then None
      else map_option (Pair True)
             (offset_loop orb_write (nat fft_size) bytes 0 (st\<lparr>counter := counter st + 1\<rparr>)))"

subsection \<open>remove_dc and print_fft\<close>

definition remove_dc :: "iq_t list \<Rightarrow> nat \<Rightarrow> iq_t list option" where
  "remove_dc iqbuf N =
     (if length iqbuf < N then None
      else
        (case iq_div_scalar (foldl iq_add (IQ 0 0) (take N iqbuf)) (int N * Q15) of
           None \<Rightarrow> None
         | Some average \<Rightarrow>
             if average = IQ 0 0 then Some iqbuf
             else Some (map (\<lambda>x. iq_sub x average) (take N iqbuf) @ drop N iqbuf)))"

text \<open>The body of \<^verbatim>\<open>print_fft\<close> is compiled out (\<^verbatim>\<open>#if 0\<close>): nothing is written.\<close>

definition print_fft :: "string list \<Rightarrow> 32 word \<Rightarrow> 32 word \<Rightarrow> iq_t list \<Rightarrow> nat \<Rightarrow> string list" where
  "print_fft fp fc bw iqbuf N = fp"

subsection \<open>fft_stage\<close>

text \<open>
  \<^verbatim>\<open>get_iq_buffer_uptr\<close>: \<open>rd\<close> is the status that \<^verbatim>\<open>irb->read\<close> returned and the
  buffer it delivered, if any.
\<close>

definition get_iq_buffer_uptr :: "int \<times> iq_t list option \<Rightarrow> iq_t list option" where
  "get_iq_buffer_uptr rd = (if fst rd \<noteq> 1 then None else snd rd)"

text \<open>
  One call of the analysis stage, on the state and on a trace of the calls of
  \<^verbatim>\<open>print_fft\<close> it made, each with its arguments: the contents of the file, the centre
  frequency, the bandwidth, the buffer and the size. The trace is not part of the
  program's state; \<open>fft_stage\<close> is the stage without it.
\<close>

datatype print_call = Print_FFT "string list" "32 word" "32 word" "iq_t list" nat

definition fft_stage_traced ::
  "int \<times> iq_t list option \<Rightarrow> nat \<Rightarrow> 32 word \<Rightarrow> 32 word \<Rightarrow> iq_t list \<Rightarrow> 'q world
     \<Rightarrow> (bool \<times> 'q world \<times> print_call list) option" where
  "fft_stage_traced rd fft_size frequency bandwidth e st =
     (case get_iq_buffer_uptr rd of
        None \<Rightarrow> Some (False, st, [])
      | Some iqbuf \<Rightarrow>
          (case remove_dc iqbuf fft_size of
             None \<Rightarrow> None
           | Some iq1 \<Rightarrow>
               (case fft iq1 e fft_size of
                  None \<Rightarrow> None
                | Some iq2 \<Rightarrow>
                    Some (True,
                          st\<lparr>out_file := print_fft (out_file st) frequency bandwidth iq2 fft_size\<rparr>,
                          [Print_FFT (out_file st) frequency bandwidth iq2 fft_size]))))"

definition fft_stage ::
  "int \<times> iq_t list option \<Rightarrow> nat \<Rightarrow> 32 word \<Rightarrow> 32 word \<Rightarrow> iq_t list \<Rightarrow> 'q world
     \<Rightarrow> (bool \<times> 'q world) option" where
  "fft_stage rd fft_size frequency bandwidth e st =
     map_option (\<lambda>r. (fst r, fst (snd r)))
       (fft_stage_traced rd fft_size frequency bandwidth e st)"

subsection \<open>The input queue of the analysis stage\<close>




section \<open>Notions of the specification\<close>

text \<open>The reversal of the lowest \<open>k\<close> bits of \<open>n\<close>.\<close>

fun revbin :: "nat \<Rightarrow> nat \<Rightarrow> nat" where
  "revbin 0 n = 0"
| "revbin (Suc k) n = 2 ^ k * (n mod 2) + revbin k (n div 2)"

definition revbin_permute :: "nat \<Rightarrow> 'a list \<Rightarrow> 'a list" where
  "revbin_permute k iq = map (\<lambda>i. iq ! revbin k i) [0..<2 ^ k]"

text \<open>
  The buffer after the iterations below \<open>j\<close> of the reorder loop: a position is
  exchanged with its reversal once the smaller of the two has been visited.
\<close>

definition partial_perm :: "nat \<Rightarrow> nat \<Rightarrow> 'a list \<Rightarrow> 'a list" where
  "partial_perm k j iq =
     map (\<lambda>i. if i < j \<or> revbin k i < j then iq ! revbin k i else iq ! i) [0..<2 ^ k]"

definition swap_pairs :: "nat \<Rightarrow> nat \<Rightarrow> nat \<Rightarrow> (nat \<times> nat) list" where
  "swap_pairs k a b = filter (\<lambda>(n, m). n < m) (map (\<lambda>n. (n, revbin k n)) [a..<b])"

text \<open>
  The discrete Fourier transform of the specification, over the complex numbers, and
  the number a fixed-point sample stands for.
\<close>

definition dft_spec :: "complex list \<Rightarrow> nat \<Rightarrow> complex" where
  "dft_spec xs k =
     (\<Sum>n<length xs. xs ! n * cis (- (2 * pi * real n * real k / real (length xs))))"

definition to_complex :: "iq_t \<Rightarrow> complex" where
  "to_complex z = Complex (real_of_int (re_q z) / 32768) (real_of_int (im_q z) / 32768)"

section \<open>The bit-reversal reorder\<close>

lemma revbin_less: "revbin k n < 2 ^ k"
proof (induction k arbitrary: n)
  case 0
  show ?case by simp
next
  case (Suc k)
  have "n mod 2 \<le> 1" by simp
  then have "2 ^ k * (n mod 2) \<le> (2::nat) ^ k" by simp
  then have "2 ^ k * (n mod 2) + revbin k (n div 2) < 2 ^ k + 2 ^ k"
    using Suc [of "n div 2"] by (rule add_le_less_mono)
  then show ?case by simp
qed

lemma revbin_top: "revbin (Suc k) n = 2 * revbin k (n mod 2 ^ k) + (n div 2 ^ k) mod 2"
proof (induction k arbitrary: n)
  case 0
  show ?case by simp
next
  case (Suc k)
  have a: "(n mod 2 ^ Suc k) mod 2 = n mod 2"
    by (simp add: mod_mod_cancel)
  have b: "(n mod 2 ^ Suc k) div 2 = (n div 2) mod 2 ^ k"
    by (simp add: mod_mult2_eq)
  have c: "(n div 2) div 2 ^ k = n div 2 ^ Suc k"
    by (simp add: div_mult2_eq)
  have "revbin (Suc (Suc k)) n = 2 ^ Suc k * (n mod 2) + revbin (Suc k) (n div 2)"
    by simp
  also have "\<dots> = 2 ^ Suc k * (n mod 2) + (2 * revbin k ((n div 2) mod 2 ^ k) + ((n div 2) div 2 ^ k) mod 2)"
    by (simp only: Suc [of "n div 2"])
  also have "\<dots> = 2 * revbin (Suc k) (n mod 2 ^ Suc k) + (n div 2 ^ Suc k) mod 2"
    by (simp add: a b c del: power_Suc) (simp add: algebra_simps)
  finally show ?case .
qed

lemma revbin_involution: "n < 2 ^ k \<Longrightarrow> revbin k (revbin k n) = n"
proof (induction k arbitrary: n)
  case 0
  then show ?case by simp
next
  case (Suc k)
  let ?r = "revbin k (n div 2)"
  have q: "n div 2 < 2 ^ k" using Suc.prems by simp
  have r: "?r < 2 ^ k" by (rule revbin_less)
  have b: "n mod 2 < 2" by simp
  have m: "(2 ^ k * (n mod 2) + ?r) mod 2 ^ k = ?r" using r by simp
  have d: "(2 ^ k * (n mod 2) + ?r) div 2 ^ k = n mod 2" using r by simp
  have "revbin (Suc k) (revbin (Suc k) n) = 2 * revbin k ?r + (n mod 2) mod 2"
    unfolding revbin_top [of k "revbin (Suc k) n"] by (simp only: revbin.simps m d)
  also have "\<dots> = 2 * (n div 2) + n mod 2" using Suc.IH [OF q] by simp
  also have "\<dots> = n" by simp
  finally show ?case .
qed


lemma next_l_shift: "next_l (N + c) (m + c) l = next_l N m l"
proof (induction N m l rule: next_l.induct)
  case (1 N m l)
  show ?case
  proof (cases "m + l div 2 \<ge> N \<and> l div 2 \<noteq> 0")
    case True
    then have "next_l (N + c) (m + c) l = next_l (N + c) (m + c) (l div 2)"
      by (subst next_l.simps) simp
    also have "\<dots> = next_l N m (l div 2)" using True 1 by simp
    also have "\<dots> = next_l N m l" using True by (subst (2) next_l.simps) simp
    finally show ?thesis .
  next
    case False
    then show ?thesis
      by (subst next_l.simps, subst (2) next_l.simps) auto
  qed
qed

lemma next_l_le: "next_l N m l0 = Some l \<Longrightarrow> l \<le> l0 div 2"
proof (induction N m l0 rule: next_l.induct)
  case (1 N m l0)
  show ?case
  proof (cases "m + l0 div 2 \<ge> N")
    case True
    with "1.prems" have nz: "l0 div 2 \<noteq> 0" and rec: "next_l N m (l0 div 2) = Some l"
      by (subst (asm) next_l.simps, simp split: if_splits)+
    from "1.IH" [OF True nz rec] have "l \<le> l0 div 2 div 2" .
    then show ?thesis by linarith
  next
    case False
    with "1.prems" show ?thesis by (subst (asm) next_l.simps) simp
  qed
qed

lemma and_low_mask: "m < 2 ^ k \<Longrightarrow> (m::nat) AND (2 ^ k - 1) = m"
proof -
  assume "m < 2 ^ k"
  then have "take_bit k m = m" by (rule take_bit_nat_eq_self)
  then have "m AND mask k = m" by (simp only: take_bit_eq_mask)
  then show ?thesis by (simp only: mask_eq_exp_minus_1)
qed

lemma and_take_bit: "y < 2 ^ k \<Longrightarrow> (x::nat) AND y = take_bit k x AND y"
proof -
  assume "y < 2 ^ k"
  then have y: "take_bit k y = y" by (rule take_bit_nat_eq_self)
  have "take_bit k x AND y = take_bit k x AND take_bit k y" by (simp only: y)
  also have "\<dots> = take_bit k (x AND y)" by (simp only: take_bit_and)
  also have "\<dots> = x AND take_bit k y" 
    by (simp add: take_bit_eq_mask and.assoc)
  finally show ?thesis by (simp only: y)
qed

lemma and_drop_high: "y < 2 ^ k \<Longrightarrow> (2 ^ k + r) AND y = r AND (y::nat)"
proof -
  assume y: "y < 2 ^ k"
  have "take_bit k (2 ^ k + r) = take_bit k r"
    by (simp add: take_bit_nat_def)
  then show ?thesis
    using and_take_bit [OF y, of "2 ^ k + r"] and_take_bit [OF y, of r] by simp
qed

lemma revbin_update:
  "Suc n < 2 ^ k \<Longrightarrow>
     \<exists>l. next_l (2 ^ k) (revbin k n) (2 ^ k) = Some l \<and> 0 < l \<and>
         advance_m (revbin k n) l = revbin k (Suc n)"
proof (induction k arbitrary: n)
  case 0
  then show ?case by simp
next
  case (Suc k)
  show ?case
  proof (cases "even n")
    case True
    let ?m = "revbin k (n div 2)"
    have m: "revbin (Suc k) n = ?m" using True by simp
    have lt: "?m < 2 ^ k" by (rule revbin_less)
    have "next_l (2 ^ Suc k) ?m (2 ^ Suc k) = Some (2 ^ k)"
      using lt by (subst next_l.simps) simp
    moreover have "(?m AND (2 ^ k - 1)) + 2 ^ k = revbin (Suc k) (Suc n)"
    proof -
      have "Suc n mod 2 = 1" "Suc n div 2 = n div 2" using True by auto
      then have "revbin (Suc k) (Suc n) = 2 ^ k + ?m" by simp
      then show ?thesis by (simp only: and_low_mask [OF lt] add.commute)
    qed
    ultimately show ?thesis unfolding m by (auto simp: advance_m_def)
  next
    case False
    let ?q = "n div 2"
    let ?r = "revbin k ?q"
    have m: "revbin (Suc k) n = 2 ^ k + ?r" using False by (simp add: odd_iff_mod_2_eq_one)
    have q: "Suc ?q < 2 ^ k" using Suc.prems False by (auto elim!: oddE)
    from Suc.IH [OF q] obtain l where
      l: "next_l (2 ^ k) ?r (2 ^ k) = Some l" "0 < l" "(?r AND (l - 1)) + l = revbin k (Suc ?q)"
      by (auto simp: advance_m_def)
    have "next_l (2 ^ Suc k) (2 ^ k + ?r) (2 ^ Suc k) = next_l (2 ^ k + 2 ^ k) (?r + 2 ^ k) (2 ^ k)"
      by (subst next_l.simps) (simp add: add.commute mult_2)
    also have "\<dots> = Some l" using l(1) by (simp only: next_l_shift)
    finally have nl: "next_l (2 ^ Suc k) (2 ^ k + ?r) (2 ^ Suc k) = Some l" .
    have "l \<le> 2 ^ k div 2" using next_l_le [OF l(1)] .
    then have "l - 1 < 2 ^ k" using l(2)
      by (metis diff_less div_le_dividend le_trans less_le_trans less_numeral_extra(1) )
    then have "(2 ^ k + ?r) AND (l - 1) = ?r AND (l - 1)" by (rule and_drop_high)
    moreover have "revbin (Suc k) (Suc n) = revbin k (Suc ?q)" using False by simp
    ultimately show ?thesis unfolding m using nl l(2,3) by (auto simp: advance_m_def)
  qed
qed


lemma revbin_eq_iff: "i < 2 ^ k \<Longrightarrow> n < 2 ^ k \<Longrightarrow> revbin k i = n \<longleftrightarrow> i = revbin k n"
  using revbin_involution [of i k] revbin_involution [of n k] by auto

lemma revbin_zero: "revbin k 0 = 0"
  by (induction k) auto

lemma partial_perm_length [simp]: "length (partial_perm k j iq) = 2 ^ k"
  by (simp add: partial_perm_def)

lemma partial_perm_nth:
  "i < 2 ^ k \<Longrightarrow> partial_perm k j iq ! i =
     (if i < j \<or> revbin k i < j then iq ! revbin k i else iq ! i)"
  by (simp add: partial_perm_def)

lemma partial_perm_keep:
  assumes n: "n < 2 ^ k" and le: "revbin k n \<le> n"
  shows "partial_perm k (Suc n) iq = partial_perm k n iq"
proof (rule nth_equalityI)
  show "length (partial_perm k (Suc n) iq) = length (partial_perm k n iq)" by simp
next
  fix i assume "i < length (partial_perm k (Suc n) iq)"
  then have i: "i < 2 ^ k" by simp
  show "partial_perm k (Suc n) iq ! i = partial_perm k n iq ! i"
  proof (cases "i = n \<or> revbin k i = n")
    case False
    then show ?thesis using i by (auto simp: partial_perm_nth less_Suc_eq)
  next
    case True
    then have "i = n \<or> i = revbin k n" using revbin_eq_iff [OF i n] by blast
    then show ?thesis
    proof
      assume "i = n"
      then show ?thesis using le i by (cases "revbin k n = n") (auto simp: partial_perm_nth)
    next
      assume e: "i = revbin k n"
      have "revbin k i = n" using e revbin_involution [OF n] by simp
      then show ?thesis using le i e by (cases "revbin k n = n") (auto simp: partial_perm_nth)
    qed
  qed
qed

lemma partial_perm_swap:
  assumes n: "n < 2 ^ k" and lt: "n < revbin k n"
  shows "swap_at n (revbin k n) (partial_perm k n iq) = partial_perm k (Suc n) iq"
proof (rule nth_equalityI)
  show "length (swap_at n (revbin k n) (partial_perm k n iq)) = length (partial_perm k (Suc n) iq)"
    by (simp add: swap_at_def)
next
  fix i assume "i < length (swap_at n (revbin k n) (partial_perm k n iq))"
  then have i: "i < 2 ^ k" by (simp add: swap_at_def)
  let ?m = "revbin k n"
  have m: "?m < 2 ^ k" by (rule revbin_less)
  have rm: "revbin k ?m = n" by (rule revbin_involution [OF n])
  consider "i = n" | "i = ?m" | "i \<noteq> n" "i \<noteq> ?m" by blast
  then show "swap_at n ?m (partial_perm k n iq) ! i = partial_perm k (Suc n) iq ! i"
  proof cases
    case 1
    then show ?thesis using n m lt rm by (simp add: swap_at_def partial_perm_nth)
  next
    case 2
    then show ?thesis using n m lt rm by (simp add: swap_at_def partial_perm_nth)
  next
    case 3
    then have "revbin k i \<noteq> n" using revbin_eq_iff [OF i n] by simp
    with 3 show ?thesis using i by (auto simp: swap_at_def partial_perm_nth less_Suc_eq)
  qed
qed

lemma partial_perm_start:
  assumes "length iq = 2 ^ k"
  shows "partial_perm k (Suc 0) iq = iq"
proof (rule nth_equalityI)
  show "length (partial_perm k (Suc 0) iq) = length iq" using assms by simp
next
  fix i assume "i < length (partial_perm k (Suc 0) iq)"
  then have i: "i < 2 ^ k" by simp
  have "revbin k i = 0 \<Longrightarrow> i = 0"
    using revbin_eq_iff [OF i, of 0] by (simp add: revbin_zero)
  then show "partial_perm k (Suc 0) iq ! i = iq ! i"
    using i by (auto simp: partial_perm_nth revbin_zero)
qed

lemma partial_perm_final: "partial_perm k (2 ^ k) iq = revbin_permute k iq"
  by (simp add: partial_perm_def revbin_permute_def)

lemma swap_pairs_keep: "n < b \<Longrightarrow> revbin k n \<le> n \<Longrightarrow> swap_pairs k n b = swap_pairs k (Suc n) b"
  by (simp add: swap_pairs_def upt_conv_Cons)

lemma swap_pairs_swap:
  "n < b \<Longrightarrow> n < revbin k n \<Longrightarrow> swap_pairs k n b = (n, revbin k n) # swap_pairs k (Suc n) b"
  by (simp add: swap_pairs_def upt_conv_Cons)

lemma reorder_loop_invariant:
  assumes "0 < n" "n \<le> 2 ^ k"
  shows "reorder_loop (2 ^ k) n (revbin k (n - 1)) (partial_perm k n iq, tr) =
           Some (partial_perm k (2 ^ k) iq, tr @ swap_pairs k n (2 ^ k))"
  using assms
proof (induction "2 ^ k - n" arbitrary: n tr)
  case 0
  then have "n = 2 ^ k" by simp
  then show ?case by (subst reorder_loop.simps) (simp add: swap_pairs_def)
next
  case (Suc d)
  then have n: "n < 2 ^ k" by linarith
  have "Suc (n - 1) < 2 ^ k" using n Suc.prems by simp
  from revbin_update [OF this] obtain l where
    l: "next_l (2 ^ k) (revbin k (n - 1)) (2 ^ k) = Some l"
       "advance_m (revbin k (n - 1)) l = revbin k n"
    using Suc.prems by auto
  have d: "d = 2 ^ k - Suc n" using Suc.hyps by linarith
  have IH: "reorder_loop (2 ^ k) (Suc n) (revbin k n) (partial_perm k (Suc n) iq, tr') =
           Some (partial_perm k (2 ^ k) iq, tr' @ swap_pairs k (Suc n) (2 ^ k))" for tr'
    using Suc.hyps(1) [OF d, of tr'] n by simp
  show ?case
  proof (cases "revbin k n \<le> n")
    case True
    have "reorder_loop (2 ^ k) n (revbin k (n - 1)) (partial_perm k n iq, tr) =
          reorder_loop (2 ^ k) (Suc n) (revbin k n) (partial_perm k n iq, tr)"
      using n l True by (subst reorder_loop.simps) simp
    then show ?thesis
      using IH [of tr] by (simp add: partial_perm_keep [OF n True] swap_pairs_keep [OF n True])
  next
    case False
    then have lt: "n < revbin k n" by simp
    have "reorder_loop (2 ^ k) n (revbin k (n - 1)) (partial_perm k n iq, tr) =
          reorder_loop (2 ^ k) (Suc n) (revbin k n)
            (swap_at n (revbin k n) (partial_perm k n iq), tr @ [(n, revbin k n)])"
      using n l False revbin_less [of k n] by (subst reorder_loop.simps) simp
    then show ?thesis
      using IH [of "tr @ [(n, revbin k n)]"]
      by (simp add: partial_perm_swap [OF n lt] swap_pairs_swap [OF n lt])
  qed
qed

lemma reorder_loop_result:
  assumes "length iq = 2 ^ k"
  shows "reorder_loop (2 ^ k) (Suc 0) 0 (iq, []) =
           Some (revbin_permute k iq, swap_pairs k (Suc 0) (2 ^ k))"
  using reorder_loop_invariant [of "Suc 0" k iq "[]"] assms
  by (simp add: partial_perm_start partial_perm_final revbin_zero)

lemma fft_reorder_samples_revbin:
  "length iq = 2 ^ k \<Longrightarrow> fft_reorder_samples iq (2 ^ k) = Some (revbin_permute k iq)"
  by (simp add: fft_reorder_samples_def reorder_loop_result)

lemma fft_reorder_swaps_revbin:
  "length iq = 2 ^ k \<Longrightarrow> fft_reorder_swaps iq (2 ^ k) = Some (swap_pairs k (Suc 0) (2 ^ k))"
  by (simp add: fft_reorder_swaps_def reorder_loop_result)

lemma revbin_permute_length: "length (revbin_permute k iq) = 2 ^ k"
  by (simp add: revbin_permute_def)

lemma revbin_permute_involution:
  assumes "length iq = 2 ^ k"
  shows "revbin_permute k (revbin_permute k iq) = iq"
proof (rule nth_equalityI)
  show "length (revbin_permute k (revbin_permute k iq)) = length iq"
    using assms by (simp add: revbin_permute_def)
next
  fix i assume "i < length (revbin_permute k (revbin_permute k iq))"
  then have i: "i < 2 ^ k" by (simp add: revbin_permute_def)
  then show "revbin_permute k (revbin_permute k iq) ! i = iq ! i"
    by (simp add: revbin_permute_def revbin_less revbin_involution)
qed

text \<open>
  C6. For every transform size \<open>N = 2^k\<close> that an \<^verbatim>\<open>int\<close> can hold and every buffer of
  \<open>N\<close> samples, \<^verbatim>\<open>fft_reorder_samples\<close> returns, and applying it to its own result
  returns the original buffer: the reorder is its own inverse.
\<close>

theorem fft_reorder_samples_twice:
  assumes "N = 2 ^ k" and "k < 31" and "length iq = N"
  shows "Option.bind (fft_reorder_samples iq N) (\<lambda>iq'. fft_reorder_samples iq' N) = Some iq"
  using assms
  by (simp add: fft_reorder_samples_revbin revbin_permute_involution revbin_permute_length)

theorem fft_reorder_samples_twice_witness:
  "Option.bind (fft_reorder_samples [10, 20, 30, 40, 50, 60, 70, 80 :: int] 8)
     (\<lambda>iq'. fft_reorder_samples iq' 8) = Some [10, 20, 30, 40, 50, 60, 70, 80]"
  using fft_reorder_samples_twice [of 8 3 "[10, 20, 30, 40, 50, 60, 70, 80 :: int]"]
  by simp

lemma next_l_pow2:
  "next_l N m (2 ^ i) = Some l \<Longrightarrow>
     m + l < N \<and> (l = 0 \<or> (\<exists>j<i. l = 2 ^ j)) \<and> (\<forall>j<i. l < 2 ^ j \<longrightarrow> N \<le> m + 2 ^ j)"
proof (induction i)
  case 0
  then show ?case by (subst (asm) next_l.simps) (simp split: if_splits)
next
  case (Suc i)
  have half: "(2::nat) ^ Suc i div 2 = 2 ^ i" by simp
  show ?case
  proof (cases "N \<le> m + 2 ^ i")
    case True
    with Suc.prems have "next_l N m (2 ^ i) = Some l"
      by (subst (asm) next_l.simps) (simp only: half, simp)
    from Suc.IH [OF this] True show ?thesis
      by (auto simp: less_Suc_eq)
  next
    case False
    with Suc.prems have "l = 2 ^ i"
      by (subst (asm) next_l.simps) (simp only: half, simp)
    with False show ?thesis by auto
  qed
qed

lemma swap_pairs_distinct: "distinct (swap_pairs k a b)"
proof -
  have "distinct (map (\<lambda>n. (n, revbin k n)) [a..<b])"
    by (simp add: distinct_map inj_on_def)
  then show ?thesis unfolding swap_pairs_def by (rule distinct_filter)
qed

lemma swap_pairs_set:
  "(n, m) \<in> set (swap_pairs k a b) \<longleftrightarrow> a \<le> n \<and> n < b \<and> m = revbin k n \<and> n < m"
  by (auto simp: swap_pairs_def)

text \<open>
  C7, as the code has it. For \<open>N = 2^k\<close> and every \<open>n\<close> from 1 to \<open>N - 1\<close>: the step \<open>l\<close>
  found for the running index \<open>m\<close> is a power of two below \<open>N\<close> with \<open>m + l < N\<close>, no
  larger power of two below \<open>N\<close> has that property, and the advanced index is the
  bit reversal of \<open>n\<close>. The samples at \<open>n\<close> and \<open>m\<close> are swapped exactly when \<open>n < m\<close>
  (never when \<open>m \<le> n\<close>), so the swaps made are the pairs \<open>(n, revbin k n)\<close> with
  \<open>n < revbin k n\<close>, each once, in the order of \<open>n\<close>: a position that differs from its
  reversal is swapped with it once, from the smaller of the two indices.
\<close>

theorem fft_reorder_samples_swaps:
  assumes "N = 2 ^ k" and "k < 31" and "length iq = N"
  shows "fft_reorder_swaps iq N =
           Some (filter (\<lambda>(n, m). n < m) (map (\<lambda>n. (n, revbin k n)) [1..<N]))
         \<and> distinct (the (fft_reorder_swaps iq N))
         \<and> (\<forall>n<N. revbin k n \<noteq> n \<longrightarrow>
              ((n, revbin k n) \<in> set (the (fft_reorder_swaps iq N))) \<noteq>
              ((revbin k n, n) \<in> set (the (fft_reorder_swaps iq N))))
         \<and> (\<forall>n. 1 \<le> n \<and> n < N \<longrightarrow>
              (\<exists>l j. next_l N (revbin k (n - 1)) N = Some l \<and> l = 2 ^ j \<and> j < k
                 \<and> revbin k (n - 1) + l < N
                 \<and> (\<forall>i<k. l < 2 ^ i \<longrightarrow> N \<le> revbin k (n - 1) + 2 ^ i)
                 \<and> advance_m (revbin k (n - 1)) l = revbin k n))"
proof -
  have sw: "fft_reorder_swaps iq N = Some (swap_pairs k (Suc 0) N)"
    using assms by (simp add: fft_reorder_swaps_revbin)
  have a: "fft_reorder_swaps iq N =
             Some (filter (\<lambda>(n, m). n < m) (map (\<lambda>n. (n, revbin k n)) [1..<N]))"
    using sw by (simp add: swap_pairs_def)
  have b: "distinct (the (fft_reorder_swaps iq N))"
    by (simp add: sw swap_pairs_distinct)
  have c: "((n, revbin k n) \<in> set (the (fft_reorder_swaps iq N))) \<noteq>
           ((revbin k n, n) \<in> set (the (fft_reorder_swaps iq N)))"
    if n: "n < N" and ne: "revbin k n \<noteq> n" for n
  proof -
    have n2: "n < 2 ^ k" using n assms by simp
    have inv: "revbin k (revbin k n) = n" by (rule revbin_involution [OF n2])
    have r: "revbin k n < N" using assms by (simp add: revbin_less)
    have n0: "n \<noteq> 0"
    proof
      assume "n = 0"
      then have "revbin k n = n" by (simp add: revbin_zero)
      with ne show False by simp
    qed
    have r0: "revbin k n \<noteq> 0"
    proof
      assume "revbin k n = 0"
      then have "revbin k (revbin k n) = 0" by (simp add: revbin_zero)
      with inv n0 show False by simp
    qed
    show ?thesis
      using ne n r n0 r0 inv by (auto simp: sw swap_pairs_set)
  qed
  have d: "\<exists>l j. next_l N (revbin k (n - 1)) N = Some l \<and> l = 2 ^ j \<and> j < k
                 \<and> revbin k (n - 1) + l < N
                 \<and> (\<forall>i<k. l < 2 ^ i \<longrightarrow> N \<le> revbin k (n - 1) + 2 ^ i)
                 \<and> advance_m (revbin k (n - 1)) l = revbin k n"
    if n: "1 \<le> n \<and> n < N" for n
  proof -
    have "Suc (n - 1) < 2 ^ k" using n assms by simp
    from revbin_update [OF this] obtain l where
      l: "next_l (2 ^ k) (revbin k (n - 1)) (2 ^ k) = Some l" "0 < l"
         "advance_m (revbin k (n - 1)) l = revbin k n"
      using n by auto
    from next_l_pow2 [OF l(1)] l(2) obtain j where
      j: "j < k" "l = 2 ^ j" "revbin k (n - 1) + l < 2 ^ k"
         "\<forall>i<k. l < 2 ^ i \<longrightarrow> 2 ^ k \<le> revbin k (n - 1) + 2 ^ i"
      by auto
    show ?thesis using l j assms(1) by blast
  qed
  from a b c d show ?thesis by blast
qed

theorem fft_reorder_samples_swaps_witness:
  "fft_reorder_swaps [10, 20, 30, 40, 50, 60, 70, 80 :: int] 8 = Some [(1, 4), (3, 6)]
   \<and> next_l 8 (revbin 3 (4 - 1)) 8 = Some 1 \<and> advance_m (revbin 3 (4 - 1)) 1 = 1"
proof -
  have h: "(8::nat) = 2 ^ 3" "(3::nat) < 31" "length [10, 20, 30, 40, 50, 60, 70, 80 :: int] = 8"
    by simp_all
  have r: "filter (\<lambda>(n, m). n < m) (map (\<lambda>n. (n, revbin 3 n)) [1..<8]) = [(1, 4), (3, 6)]"
    by code_simp
  have n: "next_l 8 (revbin 3 (4 - 1)) 8 = Some 1"
    by code_simp
  have a: "advance_m (revbin 3 (4 - 1)) 1 = 1"
    by code_simp
  from fft_reorder_samples_swaps [OF h] r n a show ?thesis by simp
qed

text \<open>
  C7 as stated fails: for \<open>N = 4\<close> the samples at \<open>n = 1\<close> and \<open>m = 2\<close> are swapped,
  and \<open>m \<le> n\<close> does not hold there.
\<close>

theorem fft_reorder_samples_swaps_counterexample:
  "fft_reorder_swaps [10, 20, 30, 40 :: int] 4 = Some [(1, 2)] \<and> \<not> ((2::nat) \<le> 1)"
  by code_simp

section \<open>remove_dc\<close>

lemma c_div_rescale: "0 < n \<Longrightarrow> c_div (a * Q15) (n * Q15) = c_div a n"
proof -
  assume n: "0 < n"
  have q: "(0::int) < Q15" by (simp add: Q15_def)
  have s1: "(a * Q15 < 0) = (a < 0)" using q by (simp add: mult_less_0_iff)
  have s2: "(n * Q15 < 0) = (n < 0)" using q by (simp add: mult_less_0_iff)
  have "\<bar>a * Q15\<bar> div \<bar>n * Q15\<bar> = (\<bar>a\<bar> * Q15) div (\<bar>n\<bar> * Q15)"
    using q by (simp add: abs_mult)
  also have "\<dots> = \<bar>a\<bar> div \<bar>n\<bar>" using q by simp
  finally show ?thesis by (simp add: c_div_def s1 s2)
qed

lemma c_div_remainder: "0 < n \<Longrightarrow> c_div (s - n * c_div s n) n = 0"
proof -
  assume n: "0 < n"
  show ?thesis
  proof (cases "s < 0")
    case False
    then have "c_div s n = s div n" using n by (simp add: c_div_def)
    then have "s - n * c_div s n = s mod n" by (simp add: minus_mult_div_eq_mod)
    moreover have "0 \<le> s mod n" "s mod n < n" using n by simp_all
    ultimately show ?thesis using n by (simp add: c_div_def)
  next
    case True
    then have "c_div s n = - ((- s) div n)" using n by (simp add: c_div_def)
    then have "s - n * c_div s n = - ((- s) mod n)"
      by (simp add: algebra_simps minus_mult_div_eq_mod [symmetric])
    moreover have "0 \<le> (- s) mod n" "(- s) mod n < n" using n by simp_all
    ultimately show ?thesis using n by (simp add: c_div_def)
  qed
qed

lemma foldl_iq_add:
  "foldl iq_add acc xs =
     IQ (re_q acc + sum_list (map re_q xs)) (im_q acc + sum_list (map im_q xs))"
  by (induction xs arbitrary: acc) (simp_all add: iq_add_def)

lemma sum_list_iq_sub:
  "sum_list (map re_q (map (\<lambda>x. iq_sub x a) xs)) = sum_list (map re_q xs) - int (length xs) * re_q a"
  "sum_list (map im_q (map (\<lambda>x. iq_sub x a) xs)) = sum_list (map im_q xs) - int (length xs) * im_q a"
  by (induction xs) (simp_all add: iq_sub_def algebra_simps)

lemma iq_div_scalar_eq:
  "0 < n \<Longrightarrow> iq_div_scalar (IQ a b) (n * Q15) = Some (IQ (c_div a n) (c_div b n))"
proof -
  assume n: "0 < n"
  have "n * Q15 \<noteq> 0" using n by (simp add: Q15_def)
  then show ?thesis
    by (simp add: iq_div_scalar_def fixq15_div_def c_div_rescale [OF n])
qed

lemma remove_dc_eq:
  assumes "0 < N" and "length iqbuf = N"
  shows "remove_dc iqbuf N =
           (let average = IQ (c_div (sum_list (map re_q iqbuf)) (int N))
                             (c_div (sum_list (map im_q iqbuf)) (int N))
            in if average = IQ 0 0 then Some iqbuf
               else Some (map (\<lambda>x. iq_sub x average) iqbuf))"
  using assms by (simp add: remove_dc_def foldl_iq_add iq_div_scalar_eq Let_def)

text \<open>
  C8. For every buffer of \<open>N > 0\<close> samples \<^verbatim>\<open>remove_dc\<close> returns, and applying it to
  its own result gives that result again; when the computed mean is the zero
  complex value the buffer is returned unchanged.
\<close>

theorem remove_dc_idempotent:
  assumes "0 < N" and "length iqbuf = N"
  shows "remove_dc iqbuf N \<noteq> None
         \<and> Option.bind (remove_dc iqbuf N) (\<lambda>b. remove_dc b N) = remove_dc iqbuf N
         \<and> (iq_div_scalar (foldl iq_add (IQ 0 0) (take N iqbuf)) (int N * Q15) = Some (IQ 0 0)
              \<longrightarrow> remove_dc iqbuf N = Some iqbuf)"
proof -
  let ?a = "c_div (sum_list (map re_q iqbuf)) (int N)"
  let ?b = "c_div (sum_list (map im_q iqbuf)) (int N)"
  let ?out = "map (\<lambda>x. iq_sub x (IQ ?a ?b)) iqbuf"
  have n: "0 < int N" using assms by simp
  have zero: "iq_div_scalar (foldl iq_add (IQ 0 0) (take N iqbuf)) (int N * Q15) = Some (IQ 0 0)
                \<longrightarrow> remove_dc iqbuf N = Some iqbuf"
    by (simp add: remove_dc_def assms)
  show ?thesis
  proof (cases "IQ ?a ?b = IQ 0 0")
    case True
    have "remove_dc iqbuf N = Some iqbuf"
      unfolding remove_dc_eq [OF assms] Let_def using True by (simp only: if_True refl)
    then show ?thesis using zero by simp
  next
    case False
    have once: "remove_dc iqbuf N = Some ?out"
      unfolding remove_dc_eq [OF assms] Let_def using False by (simp only: if_False)
    have len: "length ?out = N" using assms by simp
    have re: "c_div (sum_list (map re_q ?out)) (int N) = 0"
      using c_div_remainder [OF n, of "sum_list (map re_q iqbuf)"] assms
      by (simp add: sum_list_iq_sub del: map_map)
    have im: "c_div (sum_list (map im_q ?out)) (int N) = 0"
      using c_div_remainder [OF n, of "sum_list (map im_q iqbuf)"] assms
      by (simp add: sum_list_iq_sub del: map_map)
    have "remove_dc ?out N = Some ?out"
      unfolding remove_dc_eq [OF assms(1) len] Let_def by (simp only: re im if_True refl)
    then show ?thesis using once zero by simp
  qed
qed

theorem remove_dc_idempotent_witness:
  "remove_dc [IQ 1 0, IQ 0 0, IQ 5 (- 7)] 3 = Some [IQ (- 1) 2, IQ (- 2) 2, IQ 3 (- 5)]
   \<and> remove_dc [IQ (- 1) 2, IQ (- 2) 2, IQ 3 (- 5)] 3 = Some [IQ (- 1) 2, IQ (- 2) 2, IQ 3 (- 5)]"
proof -
  have h: "(0::nat) < 3" "length [IQ 1 0, IQ 0 0, IQ 5 (- 7)] = 3" by simp_all
  have v: "remove_dc [IQ 1 0, IQ 0 0, IQ 5 (- 7)] 3 = Some [IQ (- 1) 2, IQ (- 2) 2, IQ 3 (- 5)]"
    by (simp add: remove_dc_def iq_div_scalar_def fixq15_div_def c_div_def iq_add_def iq_sub_def Q15_def)
  from remove_dc_idempotent [OF h] v show ?thesis by simp
qed

section \<open>The producer\<close>

text \<open>
  C9. The producer returns \<open>false\<close> exactly when \<^verbatim>\<open>rtlsdr_read_sync\<close> reported a
  failure (a status other than 0). After a short read it returns \<open>true\<close>, having
  written one message to the log and nothing to the output file or to the ring
  buffer.
\<close>

theorem producer_false_iff_read_failed:
  "((\<exists>st'. producer orb_write fft_size status n_read bytes st = Some (False, st')) \<longleftrightarrow> status \<noteq> 0)
   \<and> (status = 0 \<and> n_read \<noteq> int IQBUF_SIZE \<longrightarrow>
        producer orb_write fft_size status n_read bytes st =
          Some (True, st\<lparr>err_log := err_log st @ [Dropped_Samples n_read]\<rparr>))"
  by (auto simp: producer_def)

theorem producer_false_iff_read_failed_witness:
  "producer (\<lambda>q b. (1, q @ [b])) 2048 0 512 (replicate 16384 0)
      \<lparr>counter = 1, out_file = [], err_log = [], orb = []\<rparr> =
     Some (True, \<lparr>counter = 1, out_file = [], err_log = [Dropped_Samples 512], orb = []\<rparr>)
   \<and> (\<exists>st'. producer (\<lambda>q b. (1, q @ [b])) 2048 (- 1) 0 (replicate 16384 0)
      \<lparr>counter = 1, out_file = [], err_log = [], orb = []\<rparr> = Some (False, st'))"
proof -
  have h: "(0::int) = 0 \<and> (512::int) \<noteq> int IQBUF_SIZE"
    by (simp add: IQBUF_SIZE_def FFT_SIZE_MAX_def)
  have f: "(- 1 :: int) \<noteq> 0" by simp
  from producer_false_iff_read_failed
         [of "\<lambda>q b. (1, q @ [b])" 2048 0 512 "replicate 16384 0"
             "\<lparr>counter = 1, out_file = [], err_log = [], orb = []\<rparr>"]
       producer_false_iff_read_failed
         [of "\<lambda>q b. (1, q @ [b])" 2048 "- 1" 0 "replicate 16384 0"
             "\<lparr>counter = 1, out_file = [], err_log = [], orb = []\<rparr>"]
       h f
  show ?thesis by simp
qed

lemma convert_steps:
  assumes "offset + 2 * F \<le> length bytes" and "length buf = F" and "a \<le> F"
  shows "\<exists>buf'. for_each (convert_step bytes offset) [a..<F] (buf, out) =
            Some (buf', out @ map (\<lambda>i. sample_line (bytes ! (offset + 2 * i))
                                               (bytes ! (offset + 2 * i + 1))) [a..<F])
          \<and> length buf' = F"
  using assms
proof (induction "F - a" arbitrary: a buf out)
  case 0
  then show ?case by simp
next
  case (Suc d)
  then have a: "a < F" by linarith
  let ?buf = "buf[a := convert_sample (bytes ! (offset + 2 * a + 0)) (bytes ! (offset + 2 * a + 1))]"
  let ?out = "out @ [sample_line (bytes ! (offset + 2 * a + 0)) (bytes ! (offset + 2 * a + 1))]"
  have step: "convert_step bytes offset a (buf, out) = Some (?buf, ?out)"
    using a Suc.prems by (simp add: convert_step_def)
  have d: "d = F - Suc a" using Suc.hyps by linarith
  have len: "length ?buf = F" using Suc.prems by simp
  from Suc.hyps(1) [OF d Suc.prems(1) len, of ?out] a obtain buf' where
    "for_each (convert_step bytes offset) [Suc a..<F] (?buf, ?out) =
       Some (buf', ?out @ map (\<lambda>i. sample_line (bytes ! (offset + 2 * i))
                                               (bytes ! (offset + 2 * i + 1))) [Suc a..<F])"
    "length buf' = F"
    by auto
  then show ?case using a step by (simp add: upt_conv_Cons)
qed

lemma convert_block_lines:
  assumes "2 * p + 2 * F \<le> length bytes"
  shows "\<exists>buf. convert_block F bytes (2 * p) out =
            Some (buf, out @ map (\<lambda>s. sample_line (bytes ! (2 * s)) (bytes ! (2 * s + 1))) [p..<p + F])"
proof -
  from convert_steps [OF assms, of "replicate F (IQ 0 0)" 0 out] obtain buf where
    "for_each (convert_step bytes (2 * p)) [0..<F] (replicate F (IQ 0 0), out) =
       Some (buf, out @ map (\<lambda>i. sample_line (bytes ! (2 * p + 2 * i))
                                            (bytes ! (2 * p + 2 * i + 1))) [0..<F])"
    by auto
  moreover have "map (\<lambda>i. sample_line (bytes ! (2 * p + 2 * i)) (bytes ! (2 * p + 2 * i + 1))) [0..<F] =
                 map (\<lambda>s. sample_line (bytes ! (2 * s)) (bytes ! (2 * s + 1))) [p..<p + F]"
    by (simp add: map_add_upt [symmetric] o_def algebra_simps del: map_add_upt)
  ultimately show ?thesis by (simp add: convert_block_def)
qed

lemma offset_loop_lines:
  assumes "0 < F" and "p + F * c = IQBUF_SIZE div 2" and "length bytes = IQBUF_SIZE"
  shows "\<exists>st'. offset_loop orb_write F bytes (2 * p) st = Some st'
           \<and> out_file st' = out_file st @
               map (\<lambda>s. sample_line (bytes ! (2 * s)) (bytes ! (2 * s + 1))) [p..<IQBUF_SIZE div 2]
           \<and> counter st' = counter st"
  using assms
proof (induction c arbitrary: p st)
  case 0
  then have "\<not> 2 * p < IQBUF_SIZE" by (simp add: IQBUF_SIZE_def FFT_SIZE_MAX_def)
  then show ?case using 0 by (subst offset_loop.simps) simp
next
  case (Suc c)
  let ?g = "\<lambda>s. sample_line (bytes ! (2 * s)) (bytes ! (2 * s + 1))"
  have even: "IQBUF_SIZE = 2 * (IQBUF_SIZE div 2)" by (simp add: IQBUF_SIZE_def FFT_SIZE_MAX_def)
  have oF: "p + F \<le> IQBUF_SIZE div 2" using Suc.prems(2) by (simp add: algebra_simps)
  then have lt: "2 * p < IQBUF_SIZE" using Suc.prems(1) even by linarith
  have "2 * p + 2 * F \<le> length bytes" using oF even Suc.prems(3) by linarith
  from convert_block_lines [OF this, of "out_file st"] obtain buf where
    conv: "convert_block F bytes (2 * p) (out_file st) = Some (buf, out_file st @ map ?g [p..<p + F])"
    by auto
  let ?st = "st\<lparr>out_file := out_file st @ map ?g [p..<p + F],
                 orb := snd (orb_write (orb st) buf),
                 err_log := (if fst (orb_write (orb st) buf) \<noteq> 1
                             then err_log st @ [Write_Failed, Ring_Buffer_Dump]
                             else err_log st)\<rparr>"
  have unfold: "offset_loop orb_write F bytes (2 * p) st =
                offset_loop orb_write F bytes (2 * (p + F)) ?st"
    using lt Suc.prems(1) conv by (subst offset_loop.simps) (simp add: algebra_simps)
  have next_o: "(p + F) + F * c = IQBUF_SIZE div 2" using Suc.prems(2) by (simp add: algebra_simps)
  from Suc.IH [OF Suc.prems(1) next_o Suc.prems(3), of ?st] obtain st' where
    st': "offset_loop orb_write F bytes (2 * (p + F)) ?st = Some st'"
         "out_file st' = out_file ?st @ map ?g [p + F..<IQBUF_SIZE div 2]"
         "counter st' = counter ?st"
    by blast
  have "[p..<p + F + F * c] = [p..<p + F] @ [p + F..<p + F + F * c]"
    by (rule upt_add_eq_append) simp
  then have "[p..<IQBUF_SIZE div 2] = [p..<p + F] @ [p + F..<IQBUF_SIZE div 2]"
    by (simp only: next_o)
  then have "map ?g [p..<p + F] @ map ?g [p + F..<IQBUF_SIZE div 2] = map ?g [p..<IQBUF_SIZE div 2]"
    by simp
  then show ?case using unfold st' by simp
qed

text \<open>
  C10. When the read was complete, the idle loop is over and the transform size is a
  power of two up to 8192, the producer returns \<open>true\<close> and has appended to the output
  file one text line for each of the 8192 samples of the raw block, in their order:
  the in-phase and the quadrature byte, each minus 127, printed in decimal.
\<close>

theorem producer_writes_time_domain_samples:
  assumes "fft_size = 2 ^ k" and "k \<le> 13"
    and "IDLE_LOOPS_NUM \<le> counter st" and "length bytes = IQBUF_SIZE"
  shows "map_option (\<lambda>r. (fst r, out_file (snd r)))
           (producer orb_write fft_size 0 (int IQBUF_SIZE) bytes st) =
         Some (True, out_file st @
                 map (\<lambda>s. show_int (uint (bytes ! (2 * s)) - 127) @ ''   '' @
                            show_int (uint (bytes ! (2 * s + 1)) - 127))
                   [0..<IQBUF_SIZE div 2])"
proof -
  have F: "nat fft_size = 2 ^ k" using assms(1) by (simp add: nat_power_eq)
  have "(2::nat) ^ k * 2 ^ (13 - k) = 2 ^ 13"
    using assms(2) by (simp add: power_add [symmetric])
  then have split: "0 + nat fft_size * 2 ^ (13 - k) = IQBUF_SIZE div 2"
    by (simp add: F IQBUF_SIZE_def FFT_SIZE_MAX_def)
  have pos: "0 < nat fft_size" by (simp add: F)
  from offset_loop_lines [OF pos split assms(4), of orb_write "st\<lparr>counter := counter st + 1\<rparr>"]
  obtain st' where
    "offset_loop orb_write (nat fft_size) bytes 0 (st\<lparr>counter := counter st + 1\<rparr>) = Some st'"
    "out_file st' = out_file st @
       map (\<lambda>s. sample_line (bytes ! (2 * s)) (bytes ! (2 * s + 1))) [0..<IQBUF_SIZE div 2]"
    by auto
  moreover have "0 \<le> fft_size" using assms(1) by simp
  ultimately show ?thesis
    using assms(3) by (simp add: producer_def sample_line_def)
qed

theorem producer_writes_time_domain_samples_witness:
  "map_option (\<lambda>r. (fst r, length (out_file (snd r)), take 2 (out_file (snd r))))
     (producer (\<lambda>q b. (1, q @ [b])) 2048 0 16384 (130 # 120 # replicate 16382 0)
        \<lparr>counter = 1, out_file = [], err_log = [], orb = []\<rparr>) =
   Some (True, 8192, [''3   -7'', ''-127   -127''])"
proof -
  let ?bytes = "130 # 120 # replicate 16382 (0 :: 8 word)"
  let ?st = "\<lparr>counter = 1, out_file = [], err_log = [], orb = [] :: iq_t list list\<rparr>"
  let ?f = "\<lambda>s. show_int (uint (?bytes ! (2 * s)) - 127) @ ''   '' @
                 show_int (uint (?bytes ! (2 * s + 1)) - 127)"
  have sz: "IQBUF_SIZE = 16384" by (simp add: IQBUF_SIZE_def FFT_SIZE_MAX_def)
  have isz: "int IQBUF_SIZE = 16384" by (simp add: sz)
  have half: "IQBUF_SIZE div 2 = 8192" by (simp add: sz)
  have h: "(2048::int) = 2 ^ 11" "(11::nat) \<le> 13" "IDLE_LOOPS_NUM \<le> counter ?st"
    "length ?bytes = IQBUF_SIZE"
    by (simp_all add: sz IDLE_LOOPS_NUM_def)
  have s3: "show_int 3 = ''3''" and s7: "show_int (- 7) = ''-7''"
    and s127: "show_int (- 127) = ''-127''"
    by code_simp+
  have f0: "?f 0 = ''3   -7''" by (simp add: s3 s7)
  have f1: "?f 1 = ''-127   -127''" by (simp add: s127)
  have t: "take 2 (map g [0..<n]) = [g 0, g 1]" if "2 \<le> n" for g :: "nat \<Rightarrow> string" and n
  proof -
    have "take 2 [0..<n] = [0..<0 + 2]" using that by (subst take_upt) simp_all
    also have "\<dots> = [0, 1]" by (simp add: upt_rec)
    finally show ?thesis by (simp add: take_map)
  qed
  have E: "map_option (\<lambda>r. (fst r, out_file (snd r)))
             (producer (\<lambda>q b. (1, q @ [b])) 2048 0 (int IQBUF_SIZE) ?bytes ?st) =
           Some (True, out_file ?st @ map ?f [0..<IQBUF_SIZE div 2])"
    by (rule producer_writes_time_domain_samples [OF h])
  then obtain r where
    r: "producer (\<lambda>q b. (1, q @ [b])) 2048 0 (int IQBUF_SIZE) ?bytes ?st = Some r"
       "fst r = True" "out_file (snd r) = map ?f [0..<IQBUF_SIZE div 2]"
    by auto
  have len: "length (out_file (snd r)) = 8192"
    by (simp only: r(3) length_map length_upt half)
  have "(2::nat) \<le> IQBUF_SIZE div 2" by (simp add: half)
  then have tk: "take 2 (out_file (snd r)) = [''3   -7'', ''-127   -127'']"
    by (simp only: r(3) t f0 f1)
  show ?thesis
    using r(1,2) len tk by (simp only: isz [symmetric]) simp
qed

section \<open>The analysis stage\<close>

lemma for_each_invariant:
  assumes "\<And>i s. i \<in> set xs \<Longrightarrow> P s \<Longrightarrow> \<exists>s'. body i s = Some s' \<and> P s'" and "P s"
  shows "\<exists>s'. for_each body xs s = Some s' \<and> P s'"
  using assms
proof (induction xs arbitrary: s)
  case Nil
  then show ?case by simp
next
  case (Cons x xs)
  from Cons.prems(1) [of x s] Cons.prems(2) obtain s1 where
    s1: "body x s = Some s1" "P s1" by auto
  have "\<exists>s'. for_each body xs s1 = Some s' \<and> P s'"
    by (rule Cons.IH) (use Cons.prems(1) s1(2) in auto)
  then show ?case using s1(1) by simp
qed

lemma butterfly_total:
  "r + j + mh < length iq \<Longrightarrow> j < length e \<Longrightarrow>
     \<exists>iq'. butterfly e mh j r iq = Some iq' \<and> length iq' = length iq"
  by (simp add: butterfly_def Let_def)

lemma r_loop_total:
  assumes "length iq = C * (2 ^ l * 2)" and "j < 2 ^ l" and "j < length e" and "c \<le> C"
  shows "\<exists>iq'. r_loop e (C * (2 ^ l * 2)) l j (c * (2 ^ l * 2)) iq = Some iq'
           \<and> length iq' = length iq"
  using assms
proof (induction "C - c" arbitrary: c iq)
  case 0
  then have "c = C" by simp
  then show ?case by (subst r_loop.simps) simp
next
  case (Suc d)
  let ?m = "(2::nat) ^ l * 2"
  have c: "c < C" using Suc.hyps(2) by linarith
  then have "Suc c * ?m \<le> C * ?m" by (intro mult_le_mono1) simp
  then have step: "c * ?m + ?m \<le> C * ?m" by simp
  have lt: "c * ?m < C * ?m" using c by simp
  have "c * ?m + j + 2 ^ l < c * ?m + ?m" using Suc.prems(2) by simp
  then have "c * ?m + j + 2 ^ l < length iq" using step Suc.prems(1) by linarith
  from butterfly_total [OF this Suc.prems(3)] obtain iq1 where
    iq1: "butterfly e (2 ^ l) j (c * ?m) iq = Some iq1" "length iq1 = length iq" by blast
  have d: "d = C - Suc c" using Suc.hyps(2) by linarith
  have len1: "length iq1 = C * ?m" using iq1(2) Suc.prems(1) by simp
  have "Suc c \<le> C" using c by simp
  from Suc.hyps(1) [OF d len1 Suc.prems(2) Suc.prems(3) this] obtain iq' where
    "r_loop e (C * ?m) l j (Suc c * ?m) iq1 = Some iq'" "length iq' = length iq1" by blast
  moreover have "r_loop e (C * ?m) l j (c * ?m) iq = r_loop e (C * ?m) l j (Suc c * ?m) iq1"
    using lt iq1(1) by (subst r_loop.simps) (simp add: add.commute)
  ultimately show ?case using iq1(2) by simp
qed

lemma fft_pass_total:
  assumes "l < K" and "length iq = 2 ^ K" and "2 ^ l \<le> length e"
  shows "\<exists>iq'. fft_pass e (2 ^ K) l iq = Some iq' \<and> length iq' = 2 ^ K"
proof -
  have "K = (K - Suc l) + Suc l" using assms(1) by simp
  then have "(2::nat) ^ K = 2 ^ (K - Suc l) * 2 ^ Suc l" by (metis power_add)
  then have N: "(2::nat) ^ K = 2 ^ (K - Suc l) * (2 ^ l * 2)" by (simp add: mult.commute)
  have body: "\<exists>s'. r_loop e (2 ^ K) l j 0 s = Some s' \<and> length s' = 2 ^ K"
    if "j \<in> set [0..<2 ^ l]" and "length s = 2 ^ K" for j s
  proof -
    have j: "j < 2 ^ l" using that(1) by simp
    then have je: "j < length e" using assms(3) by linarith
    have len: "length s = 2 ^ (K - Suc l) * (2 ^ l * 2)" using that(2) N by simp
    from r_loop_total [OF len j je, of 0] show ?thesis
      using that(2) N by simp
  qed
  show ?thesis
    unfolding fft_pass_def
    by (rule for_each_invariant [where P = "\<lambda>s. length s = 2 ^ K"]) (use body assms(2) in auto)
qed

lemma ilog2_pow2: "ilog2 (2 ^ K) = K"
proof (induction K)
  case 0
  show ?case by (subst ilog2.simps) simp
next
  case (Suc K)
  have "\<not> (2::nat) ^ Suc K < 2" by simp
  then show ?case using Suc by (subst ilog2.simps) simp
qed

lemma fft_reorder_coefficients_total:
  "\<exists>iq'. fft_reorder_coefficients iq (length iq) = Some iq' \<and> length iq' = length iq"
proof -
  let ?N = "length (iq :: 'a list)"
  have "\<exists>s'. swap_checked n (n + ?N div 2) s = Some s' \<and> length s' = ?N"
    if "n \<in> set [0..<?N div 2]" and "length s = ?N" for n and s :: "'a list"
  proof -
    have "n + ?N div 2 < ?N" using that(1) by simp
    then show ?thesis using that(2) by (simp add: swap_checked_def swap_at_def)
  qed
  then show ?thesis
    unfolding fft_reorder_coefficients_def
    by (intro for_each_invariant [where P = "\<lambda>s. length s = ?N"]) auto
qed

lemma fft_total:
  assumes "length iq = 2 ^ k" and "2 ^ k div 2 \<le> length e"
  shows "\<exists>out. fft iq e (2 ^ k) = Some out \<and> length out = 2 ^ k"
proof -
  have s1: "fft_reorder_samples iq (2 ^ k) = Some (revbin_permute k iq)"
    using assms(1) by (rule fft_reorder_samples_revbin)
  have "\<exists>s'. fft_pass e (2 ^ k) l s = Some s' \<and> length s' = 2 ^ k"
    if "l \<in> set [0..<k]" and "length s = 2 ^ k" for l s
  proof -
    have l: "l < k" using that(1) by simp
    then have "(2::nat) ^ l * 2 \<le> 2 ^ k"
      by (metis Suc_leI power_Suc2 power_increasing one_le_numeral)
    then have "2 ^ l \<le> length e" using assms(2) by linarith
    from fft_pass_total [OF l that(2) this] show ?thesis .
  qed
  then have "\<exists>s'. for_each (fft_pass e (2 ^ k)) [0..<k] (revbin_permute k iq) = Some s'
               \<and> length s' = 2 ^ k"
    by (intro for_each_invariant [where P = "\<lambda>s. length s = 2 ^ k"])
       (auto simp: revbin_permute_length)
  then obtain iq2 where
    iq2: "for_each (fft_pass e (2 ^ k)) [0..<k] (revbin_permute k iq) = Some iq2"
         "length iq2 = 2 ^ k" by blast
  from fft_reorder_coefficients_total [of iq2] iq2(2) obtain out where
    "fft_reorder_coefficients iq2 (2 ^ k) = Some out" "length out = 2 ^ k" by auto
  then show ?thesis
    using s1 iq2(1) by (simp add: fft_def ilog2_pow2)
qed

lemma remove_dc_total:
  assumes "0 < N" and "length iqbuf = N"
  shows "\<exists>iq1. remove_dc iqbuf N = Some iq1 \<and> length iq1 = N"
  using assms by (auto simp: remove_dc_eq Let_def)

text \<open>
  C3, as the code has it. Given a buffer of \<open>N = 2^k\<close> samples (and a table of at
  least \<open>N / 2\<close> entries), the analysis stage removes the mean and transforms the
  buffer, both of which return, then calls \<^verbatim>\<open>print_fft\<close> once, with the output file,
  the centre frequency, the bandwidth and the \<open>N\<close> bins of the transformed buffer, and
  returns \<open>true\<close>. The call writes nothing: the output file, like the rest of the
  state, is after the stage what it was before it.
\<close>

theorem fft_stage_prints_nothing:
  assumes "fft_size = 2 ^ k" and "k < 31" and "length iqbuf = fft_size"
    and "fft_size div 2 \<le> length e"
  shows "Option.bind (remove_dc iqbuf fft_size) (\<lambda>iq1. fft iq1 e fft_size) \<noteq> None
         \<and> length (the (Option.bind (remove_dc iqbuf fft_size) (\<lambda>iq1. fft iq1 e fft_size))) = fft_size
         \<and> fft_stage_traced (1, Some iqbuf) fft_size frequency bandwidth e st =
             Some (True, st,
                   [Print_FFT (out_file st) frequency bandwidth
                      (the (Option.bind (remove_dc iqbuf fft_size) (\<lambda>iq1. fft iq1 e fft_size)))
                      fft_size])
         \<and> fft_stage (1, Some iqbuf) fft_size frequency bandwidth e st = Some (True, st)"
proof -
  have pos: "0 < fft_size" using assms(1) by simp
  from remove_dc_total [OF pos assms(3)] obtain iq1 where
    iq1: "remove_dc iqbuf fft_size = Some iq1" "length iq1 = fft_size" by blast
  have "length iq1 = 2 ^ k" "2 ^ k div 2 \<le> length e" using iq1(2) assms(1,4) by simp_all
  from fft_total [OF this] obtain bins where
    bins: "fft iq1 e fft_size = Some bins" "length bins = fft_size" using assms(1) by auto
  have keep: "st\<lparr>out_file := print_fft (out_file st) frequency bandwidth bins fft_size\<rparr> = st"
    by (simp add: print_fft_def)
  have traced: "fft_stage_traced (1, Some iqbuf) fft_size frequency bandwidth e st =
                  Some (True, st, [Print_FFT (out_file st) frequency bandwidth bins fft_size])"
    by (simp add: fft_stage_traced_def get_iq_buffer_uptr_def iq1(1) bins(1) keep)
  show ?thesis
    using traced bins by (simp add: fft_stage_def iq1(1))
qed

theorem fft_stage_prints_nothing_witness:
  "fft_stage_traced (1, Some [IQ 256 0, IQ 512 0, IQ (- 256) 0, IQ 0 768]) 4 100000000 2000000
     [IQ 32768 0, IQ 0 32768, IQ (- 32768) 0, IQ 0 (- 32768)]
     \<lparr>counter = 2, out_file = [''1   2''], err_log = [], orb = ()\<rparr>
   = Some (True, \<lparr>counter = 2, out_file = [''1   2''], err_log = [], orb = ()\<rparr>,
           [Print_FFT [''1   2''] 100000000 2000000
              [IQ (- 512) (- 768), IQ (- 256) (- 512), IQ 0 0, IQ 1280 512] 4])"
proof -
  let ?iqbuf = "[IQ 256 0, IQ 512 0, IQ (- 256) 0, IQ 0 768]"
  let ?e = "[IQ 32768 0, IQ 0 32768, IQ (- 32768) 0, IQ 0 (- 32768)]"
  have h: "(4::nat) = 2 ^ 2" "(2::nat) < 31" "length ?iqbuf = 4" "(4::nat) div 2 \<le> length ?e"
    by simp_all
  have bins: "Option.bind (remove_dc ?iqbuf 4) (\<lambda>iq1. fft iq1 ?e 4) =
                Some [IQ (- 512) (- 768), IQ (- 256) (- 512), IQ 0 0, IQ 1280 512]"
    by code_simp
  from fft_stage_prints_nothing
         [OF h, where frequency = 100000000 and bandwidth = 2000000
            and st = "\<lparr>counter = 2, out_file = [''1   2''], err_log = [], orb = ()\<rparr>"]
  show ?thesis by (simp add: bins)
qed

text \<open>
  C3 as stated fails: after the analysis stage has processed a buffer of two samples,
  the output file, empty before, is still empty; it has received no bin.
\<close>

theorem fft_stage_sink_counterexample:
  "map_option (\<lambda>r. (fst r, out_file (snd r)))
     (fft_stage (1, Some [IQ 256 0, IQ 512 0]) 2 100000000 2000000
        [IQ 32768 0, IQ (- 32768) 0]
        \<lparr>counter = 2, out_file = [], err_log = [], orb = ()\<rparr>)
   = Some (True, [])"
  by code_simp

text \<open>
  When the analysis stage returns \<open>false\<close>: exactly when the read delivered no buffer.
\<close>

lemma fft_stage_false_iff:
  "(\<exists>st'. fft_stage rd fft_size frequency bandwidth e st = Some (False, st'))
     \<longleftrightarrow> fst rd \<noteq> 1 \<or> snd rd = None"
  by (auto simp: fft_stage_def fft_stage_traced_def get_iq_buffer_uptr_def
           split: option.splits if_splits)



section \<open>The checks of the transform size in main\<close>

lemma and_pred_nat_pow2:
  "0 < n \<Longrightarrow> (n::nat) AND (n - 1) = 0 \<Longrightarrow> \<exists>k. n = 2 ^ k"
proof (induction n rule: less_induct)
  case (less n)
  show ?case
  proof (cases "even n")
    case True
    then obtain q where q: "n = 2 * q" by (auto elim: evenE)
    then have q0: "0 < q" using less.prems(1) by simp
    have "(n - 1) div 2 = q - 1" using q q0 by simp
    moreover have "n div 2 = q" using q by simp
    moreover have "n AND (n - 1) = of_bool (odd n \<and> odd (n - 1)) + 2 * ((n div 2) AND ((n - 1) div 2))"
      by (rule and_rec)
    ultimately have "q AND (q - 1) = 0" using less.prems(2) True by simp
    moreover have "q < n" using q q0 by simp
    ultimately obtain k where "q = 2 ^ k" using less.IH q0 by blast
    then have "n = 2 ^ Suc k" using q by simp
    then show ?thesis by blast
  next
    case False
    then obtain q where q: "n = 2 * q + 1" by (auto elim: oddE)
    have "(n - 1) div 2 = q" "n div 2 = q" using q by simp_all
    moreover have "n AND (n - 1) = of_bool (odd n \<and> odd (n - 1)) + 2 * ((n div 2) AND ((n - 1) div 2))"
      by (rule and_rec)
    ultimately have "q = 0" using less.prems(2) q by simp
    then have "n = 2 ^ 0" using q by simp
    then show ?thesis by blast
  qed
qed

lemma and_pred_int_pow2:
  assumes "(n::int) AND (n - 1) = 0" and "n \<noteq> 0"
  shows "\<exists>k. n = 2 ^ k"
proof (cases "n < 0")
  case True
  then have "n AND (n - 1) < 0" by simp
  with assms(1) show ?thesis by simp
next
  case False
  then have pos: "0 < nat n" using assms(2) by simp
  have n: "n = int (nat n)" using False by simp
  have "int (nat n AND (nat n - 1)) = int (nat n) AND int (nat n - 1)"
    by (rule of_nat_and_eq)
  also have "int (nat n - 1) = n - 1" using pos by simp
  finally have "int (nat n AND (nat n - 1)) = 0" using assms(1) n by simp
  then have "nat n AND (nat n - 1) = 0" by simp
  from and_pred_nat_pow2 [OF pos this] obtain k where "nat n = 2 ^ k" by blast
  then have "n = 2 ^ k" using n by (metis of_nat_numeral of_nat_power)
  then show ?thesis by blast
qed

text \<open>
  What the two checks do let through: apart from 0, only the powers of two up to
  \<^const>\<open>FFT_SIZE_MAX\<close> reach the start of the pipeline.
\<close>

lemma main_run_started_sizes:
  assumes "main_run frequency bandwidth fft_size env = Pipeline_Started n e"
  shows "n = fft_size \<and> e = generate_e_2pi_i (nat fft_size)
         \<and> (fft_size = 0 \<or> (\<exists>k\<le>13. fft_size = 2 ^ k))"
proof -
  from assms have ne: "n = fft_size \<and> e = generate_e_2pi_i (nat fft_size)"
    and a: "fft_size AND (fft_size - 1) = 0" and le: "fft_size \<le> FFT_SIZE_MAX"
    by (auto simp: main_run_def split: if_splits)
  have "\<exists>k\<le>13. fft_size = 2 ^ k" if nz: "fft_size \<noteq> 0"
  proof -
    from and_pred_int_pow2 [OF a nz] obtain k where k: "fft_size = 2 ^ k" by blast
    have "(2::int) ^ k \<le> 2 ^ 13" using le k by (simp add: FFT_SIZE_MAX_def)
    then have "k \<le> 13" by (rule power_le_imp_le_exp [rotated]) simp
    with k show ?thesis by blast
  qed
  with ne show ?thesis by blast
qed

text \<open>
  C5 fails on the code at the transform size 0, which is not a power of two: with a
  frequency given and the device calls succeeding, both checks let it through
  (\<open>0 & (0 - 1)\<close> is 0, and 0 is not above the maximum) and the pipeline is started
  with size 0 and an empty table.
\<close>

theorem main_run_size_zero_starts_pipeline:
  "main_run 100000000 2000000 0
     \<lparr>fopen_ok = True, dev_index = 0, open_status = 0, gain_mode_status = 0,
      reset_buffer_status = 0, center_freq_status = 0, sample_rate_status = 0\<rparr>
   = Pipeline_Started 0 []"
  by (simp add: main_run_def FFT_SIZE_MAX_def generate_e_2pi_i_def)

section \<open>The twiddle table\<close>

lemma c_round_close: "\<bar>real_of_int (c_round x) - x\<bar> \<le> 1 / 2"
proof (cases "0 \<le> x")
  case True
  have "real_of_int \<lfloor>x + 1 / 2\<rfloor> \<le> x + 1 / 2" by (rule of_int_floor_le)
  moreover have "x + 1 / 2 < real_of_int \<lfloor>x + 1 / 2\<rfloor> + 1" by linarith
  ultimately have "\<bar>real_of_int \<lfloor>x + 1 / 2\<rfloor> - x\<bar> \<le> 1 / 2" by linarith
  then show ?thesis using True by (simp only: c_round_def if_True)
next
  case False
  define f where "f = \<lfloor>- x + 1 / 2\<rfloor>"
  have "real_of_int f \<le> - x + 1 / 2" unfolding f_def by (rule of_int_floor_le)
  moreover have "- x + 1 / 2 < real_of_int f + 1" unfolding f_def by linarith
  moreover have "real_of_int (- f) = - real_of_int f" by simp
  ultimately have "\<bar>real_of_int (- f) - x\<bar> \<le> 1 / 2" by linarith
  then show ?thesis using False unfolding f_def by (simp only: c_round_def if_False)
qed

lemma generate_e_2pi_i_nth:
  "k < N \<Longrightarrow> generate_e_2pi_i N ! k =
     IQ (c_round (real_of_int Q15 * cos (2 * pi * real k / real N)))
        (c_round (real_of_int Q15 * sin (2 * pi * real k / real N)))"
  by (simp add: generate_e_2pi_i_def)

text \<open>
  C2, as the code has it. The table built for the transform size \<open>N\<close> has \<open>N\<close> entries,
  and for every \<open>k\<close> below \<open>N\<close> its entry \<open>k\<close> is \<open>e^{+2\<pi>ik/N}\<close> in Q15, rounded: each part
  is within half a unit of \<open>2^15\<close> times the part of the exponential. The table with
  which the pipeline is started is the one computed from the transform size in main.
\<close>

theorem generate_e_2pi_i_table:
  "length (generate_e_2pi_i N) = N
   \<and> (\<forall>k<N. \<bar>real_of_int (re_q (generate_e_2pi_i N ! k))
                 - 32768 * Re (cis (2 * pi * real k / real N))\<bar> \<le> 1 / 2
            \<and> \<bar>real_of_int (im_q (generate_e_2pi_i N ! k))
                 - 32768 * Im (cis (2 * pi * real k / real N))\<bar> \<le> 1 / 2)
   \<and> (main_run frequency bandwidth fft_size env = Pipeline_Started n e
        \<longrightarrow> e = generate_e_2pi_i (nat fft_size))"
proof -
  have len: "length (generate_e_2pi_i N) = N" by (simp add: generate_e_2pi_i_def)
  have ent: "\<bar>real_of_int (re_q (generate_e_2pi_i N ! k))
                 - 32768 * Re (cis (2 * pi * real k / real N))\<bar> \<le> 1 / 2
            \<and> \<bar>real_of_int (im_q (generate_e_2pi_i N ! k))
                 - 32768 * Im (cis (2 * pi * real k / real N))\<bar> \<le> 1 / 2" if "k < N" for k
    using c_round_close [of "32768 * cos (2 * pi * real k / real N)"]
          c_round_close [of "32768 * sin (2 * pi * real k / real N)"]
    by (simp add: generate_e_2pi_i_nth [OF that] Q15_def)
  have m: "main_run frequency bandwidth fft_size env = Pipeline_Started n e
        \<longrightarrow> e = generate_e_2pi_i (nat fft_size)"
    by (auto simp: main_run_def split: if_splits)
  from len ent m show ?thesis by blast
qed

lemma quarter_turn: "2 * pi * real (1::nat) / real (4::nat) = pi / 2"
  by simp

lemma generate_e_2pi_i_4_1: "generate_e_2pi_i 4 ! 1 = IQ 0 32768"
proof -
  have "generate_e_2pi_i 4 ! 1 =
     IQ (c_round (real_of_int Q15 * cos (2 * pi * real (1::nat) / real (4::nat))))
        (c_round (real_of_int Q15 * sin (2 * pi * real (1::nat) / real (4::nat))))"
    by (rule generate_e_2pi_i_nth) simp
  then show ?thesis
    by (simp only: quarter_turn cos_pi_half sin_pi_half) (simp add: c_round_def Q15_def)
qed

theorem generate_e_2pi_i_table_witness:
  "(1::nat) < 4 \<and> generate_e_2pi_i 4 ! 1 = IQ 0 32768
   \<and> \<bar>real_of_int (re_q (generate_e_2pi_i 4 ! 1)) - 32768 * Re (cis (pi / 2))\<bar> \<le> 1 / 2
   \<and> \<bar>real_of_int (im_q (generate_e_2pi_i 4 ! 1)) - 32768 * Im (cis (pi / 2))\<bar> \<le> 1 / 2"
proof -
  have h: "(1::nat) < 4" by simp
  from generate_e_2pi_i_table [of 4, THEN conjunct2, THEN conjunct1, rule_format, OF h]
  have "\<bar>real_of_int (re_q (generate_e_2pi_i 4 ! 1))
           - 32768 * Re (cis (2 * pi * real (1::nat) / real (4::nat)))\<bar> \<le> 1 / 2
        \<and> \<bar>real_of_int (im_q (generate_e_2pi_i 4 ! 1))
           - 32768 * Im (cis (2 * pi * real (1::nat) / real (4::nat)))\<bar> \<le> 1 / 2" .
  then show ?thesis
    by (simp only: quarter_turn generate_e_2pi_i_4_1 h)
qed

text \<open>
  C2 as stated fails: for \<open>N = 4\<close> the table has 4 entries, not \<open>N / 2 = 2\<close>, and its
  entry 1 is \<open>(0, 32768)\<close>, that is \<open>+i\<close>, where \<open>e^{-2\<pi>i/4}\<close> rounded to Q15 is
  \<open>(0, -32768)\<close>.
\<close>

theorem generate_e_2pi_i_counterexample:
  "length (generate_e_2pi_i 4) = 4
   \<and> length (generate_e_2pi_i 4) \<noteq> 4 div 2
   \<and> generate_e_2pi_i 4 ! 1 = IQ 0 32768
   \<and> IQ (c_round (real_of_int Q15 * Re (cis (- (pi / 2)))))
         (c_round (real_of_int Q15 * Im (cis (- (pi / 2))))) = IQ 0 (- 32768)"
  by (simp add: generate_e_2pi_i_4_1) (simp add: generate_e_2pi_i_def c_round_def Q15_def)

section \<open>The transform\<close>

lemma sqrt2_bounds: "46339 / 32768 \<le> sqrt 2" "sqrt 2 < 46341 / 32768"
proof -
  have "(46339 / 32768 :: real)\<^sup>2 \<le> 2" by (simp add: power2_eq_square)
  then show "46339 / 32768 \<le> sqrt 2" by (rule real_le_rsqrt)
  have "(2::real) < (46341 / 32768)\<^sup>2" by (simp add: power2_eq_square)
  then show "sqrt 2 < 46341 / 32768" by (intro real_less_lsqrt) simp_all
qed

lemma c_round_half_sqrt2:
  "c_round (real_of_int Q15 * (sqrt 2 / 2)) = 23170"
  "c_round (real_of_int Q15 * - (sqrt 2 / 2)) = - 23170"
proof -
  have pos: "(0::real) \<le> 32768 * (sqrt 2 / 2)" by simp
  have neg: "\<not> (0::real) \<le> 32768 * - (sqrt 2 / 2)" by simp
  have fl: "\<lfloor>32768 * (sqrt 2 / 2) + 1 / 2\<rfloor> = 23170"
    using sqrt2_bounds by (simp add: floor_eq_iff)
  show "c_round (real_of_int Q15 * (sqrt 2 / 2)) = 23170"
    using pos fl by (simp add: c_round_def Q15_def)
  have "\<lfloor>- (32768 * - (sqrt 2 / 2)) + 1 / 2\<rfloor> = 23170"
    using fl by simp
  then show "c_round (real_of_int Q15 * - (sqrt 2 / 2)) = - 23170"
    using neg by (simp add: c_round_def Q15_def)
qed

lemma eighth_turns:
  "2 * pi * real (0::nat) / real (8::nat) = 0"
  "2 * pi * real (1::nat) / real (8::nat) = pi / 4"
  "2 * pi * real (2::nat) / real (8::nat) = pi / 2"
  "2 * pi * real (3::nat) / real (8::nat) = pi - pi / 4"
  "2 * pi * real (4::nat) / real (8::nat) = pi"
  "2 * pi * real (5::nat) / real (8::nat) = pi / 4 + pi"
  "2 * pi * real (6::nat) / real (8::nat) = pi / 2 + pi"
  "2 * pi * real (7::nat) / real (8::nat) = 2 * pi - pi / 4"
  by simp_all

lemma c_round_unit:
  "c_round (real_of_int Q15 * 0) = 0"
  "c_round (real_of_int Q15 * 1) = 32768"
  "c_round (real_of_int Q15 * - 1) = - 32768"
  by (simp_all add: c_round_def Q15_def)

text \<open>The table that main builds for the transform size 8.\<close>

lemma generate_e_2pi_i_8:
  "generate_e_2pi_i 8 =
     [IQ 32768 0, IQ 23170 23170, IQ 0 32768, IQ (- 23170) 23170,
      IQ (- 32768) 0, IQ (- 23170) (- 23170), IQ 0 (- 32768), IQ 23170 (- 23170)]"
proof -
  have upt: "[0..<8] = [0, 1, 2, 3, 4, 5, 6, 7::nat]" by code_simp
  have "generate_e_2pi_i 8 =
          map (\<lambda>i. IQ (c_round (real_of_int Q15 * cos (2 * pi * real i / real (8::nat))))
                       (c_round (real_of_int Q15 * sin (2 * pi * real i / real (8::nat)))))
            [0, 1, 2, 3, 4, 5, 6, 7::nat]"
    by (simp only: generate_e_2pi_i_def upt)
  also have "\<dots> =
     [IQ 32768 0, IQ 23170 23170, IQ 0 32768, IQ (- 23170) 23170,
      IQ (- 32768) 0, IQ (- 23170) (- 23170), IQ 0 (- 32768), IQ 23170 (- 23170)]"
    by (simp only: list.map eighth_turns cos_zero sin_zero cos_45 sin_45 cos_pi_half sin_pi_half
          cos_pi_minus sin_pi_minus cos_pi sin_pi cos_periodic_pi sin_periodic_pi
          cos_2pi_minus sin_2pi_minus c_round_unit c_round_half_sqrt2 minus_zero minus_minus)
  finally show ?thesis .
qed

lemma dft_spec_impulse:
  "dft_spec (map to_complex
       [IQ 0 0, IQ 0 0, IQ 32768 0, IQ 0 0, IQ 0 0, IQ 0 0, IQ 0 0, IQ 0 0]) k =
     cis (- (2 * pi * 2 * real k / 8))"
proof -
  have zero: "to_complex (IQ 0 0) = 0" by (simp add: to_complex_def Complex_eq_0)
  have one: "to_complex (IQ 32768 0) = 1" by (simp add: to_complex_def Complex_eq_1)
  have set8: "{..<8::nat} = {0, 1, 2, 3, 4, 5, 6, 7}" by auto
  show ?thesis
    by (simp add: dft_spec_def set8 zero one)
qed

text \<open>
  C1 fails on the code for \<open>N = 8\<close>. The input is the unit impulse at index 2, the
  table the one main builds for 8. The pass for \<open>log2_n = 1\<close> multiplies by \<open>e[1]\<close>,
  the eighth root of unity, where a radix-2 transform needs the fourth root at that
  pass, and the result holds \<open>(23170, 23170)\<close>, about \<open>0.707 + 0.707i\<close>, at the positions
  1 and 5. The bins 1 and 5 of the discrete Fourier transform of this input are both
  \<open>-i\<close> (and \<open>+i\<close> with the opposite sign of the exponent): whichever of the two
  positions is read as bin 1, its value is neither.
\<close>

theorem fft_impulse_not_dft:
  "fft [IQ 0 0, IQ 0 0, IQ 32768 0, IQ 0 0, IQ 0 0, IQ 0 0, IQ 0 0, IQ 0 0] (generate_e_2pi_i 8) 8 =
     Some [IQ 32768 0, IQ 23170 23170, IQ (- 32768) 0, IQ (- 23170) (- 23170),
           IQ 32768 0, IQ 23170 23170, IQ (- 32768) 0, IQ (- 23170) (- 23170)]
   \<and> dft_spec (map to_complex
         [IQ 0 0, IQ 0 0, IQ 32768 0, IQ 0 0, IQ 0 0, IQ 0 0, IQ 0 0, IQ 0 0]) 1 = - \<i>
   \<and> dft_spec (map to_complex
         [IQ 0 0, IQ 0 0, IQ 32768 0, IQ 0 0, IQ 0 0, IQ 0 0, IQ 0 0, IQ 0 0]) 5 = - \<i>
   \<and> to_complex (IQ 23170 23170) \<noteq> - \<i>
   \<and> to_complex (IQ 23170 23170) \<noteq> \<i>"
proof -
  have run: "fft [IQ 0 0, IQ 0 0, IQ 32768 0, IQ 0 0, IQ 0 0, IQ 0 0, IQ 0 0, IQ 0 0]
       [IQ 32768 0, IQ 23170 23170, IQ 0 32768, IQ (- 23170) 23170,
        IQ (- 32768) 0, IQ (- 23170) (- 23170), IQ 0 (- 32768), IQ 23170 (- 23170)] 8 =
     Some [IQ 32768 0, IQ 23170 23170, IQ (- 32768) 0, IQ (- 23170) (- 23170),
           IQ 32768 0, IQ 23170 23170, IQ (- 32768) 0, IQ (- 23170) (- 23170)]"
    by code_simp
  have b1: "cis (- (2 * pi * 2 * real (1::nat) / 8)) = - \<i>"
  proof -
    have "- (2 * pi * 2 * real (1::nat) / 8) = - (pi / 2)" by simp
    then show ?thesis by (simp only: cis_minus_pi_half)
  qed
  have b5: "cis (- (2 * pi * 2 * real (5::nat) / 8)) = - \<i>"
  proof -
    have "- (2 * pi * 2 * real (5::nat) / 8) = - (pi / 2) + - (2 * pi)" by simp
    then have "cis (- (2 * pi * 2 * real (5::nat) / 8)) = cis (- (pi / 2)) * cis (- (2 * pi))"
      by (simp only: cis_mult)
    also have "cis (- (2 * pi)) = 1" by (simp add: complex_eq_iff)
    finally show ?thesis by (simp only: cis_minus_pi_half mult_1_right)
  qed
  have ne: "to_complex (IQ 23170 23170) \<noteq> - \<i>" "to_complex (IQ 23170 23170) \<noteq> \<i>"
    by (simp_all add: to_complex_def complex_eq_iff)
  show ?thesis
    using run b1 b5 ne by (simp only: generate_e_2pi_i_8 dft_spec_impulse) simp
qed

end
